theory Spec2Isabelle
  imports Complex_Main "HOL-Library.Word" "HOL-Library.Sublist" "HOL-Library.Log_Nat"
begin

section \<open>Machine types\<close>

text \<open>
  The program is compiled for a target where \<open>unsigned\<close> and \<open>int\<close> are 32 bits wide.
  Both are modelled as 32-bit words: arithmetic wraps around, \<open>unat\<close> reads a word as
  an unsigned value and \<open>sint\<close> as a two's complement value.
\<close>

type_synonym unsigned = "32 word"
type_synonym cint = "32 word"

section \<open>The AddSomething codelet (src/AddSomethingCodelet.cpp)\<close>

text \<open>
  The vertex class has the two fields \<open>something\<close> (an input) and \<open>input_output\<close>
  (read and written). Its \<open>compute\<close> method updates the vertex and returns a flag. The
  addition is that of the machine: where the sum of the two \<open>int\<close>s does not fit, the
  language leaves the result open and the model takes the two's complement one.
\<close>

record AddSomething =
  something :: cint
  input_output :: cint

definition AddSomething_compute :: "AddSomething \<Rightarrow> AddSomething \<times> bool" where
  "AddSomething_compute v = (v\<lparr>input_output := input_output v + something v\<rparr>, True)"

section \<open>Device acquisition (setIpuDevice in src/main.cpp)\<close>

text \<open>
  A device as the program sees it: whether \<open>attach()\<close> succeeds on it, and the number
  of worker contexts its target reports. \<open>dev_name\<close> tells devices apart.
\<close>

datatype device_kind = Hardware | Simulated

record Device =
  dev_name :: nat
  dev_kind :: device_kind
  attach :: bool
  getNumWorkerContexts :: unsigned

datatype exn = Runtime_error string

text \<open>
  The loop over \<open>hwDevices\<close>: the first device whose \<open>attach()\<close> succeeds is returned.
  Falling out of the loop (or skipping it, when the list is empty) reaches the
  \<open>throw\<close>.
\<close>

fun attach_first :: "Device list \<Rightarrow> Device option" where
  "attach_first [] = None"
| "attach_first (d # ds) = (if attach d then Some d else attach_first ds)"

definition setIpuDevice :: "(unsigned \<Rightarrow> Device list) \<Rightarrow> unsigned \<Rightarrow> exn + Device" where
  "setIpuDevice getDevices num_ipus =
     (let hwDevices = getDevices num_ipus in
      case (if length hwDevices > 0 then attach_first hwDevices else None) of
        Some d \<Rightarrow> Inr d
      | None \<Rightarrow> Inl (Runtime_error ''Unable to connect to IPU device!''))"

section \<open>Command-line parsing (main, lines 49 to 121)\<close>

text \<open>
  \<open>std::stoi(s, &pos)\<close> is the standard library's: it skips leading white space, reads
  an optional sign and then decimal digits, and stores in \<open>pos\<close> the number of
  characters it consumed. It throws \<open>invalid_argument\<close> when there is no digit to read
  and \<open>out_of_range\<close> when the value does not fit an \<open>int\<close>.
\<close>

datatype stoi_result = Stoi_value int nat | Stoi_invalid_argument | Stoi_out_of_range

definition isspace :: "char \<Rightarrow> bool" where
  "isspace c = (c = CHR '' '' \<or> (9 \<le> (of_char c :: nat) \<and> (of_char c :: nat) \<le> 13))"

definition isdigit :: "char \<Rightarrow> bool" where
  "isdigit c = (48 \<le> (of_char c :: nat) \<and> (of_char c :: nat) \<le> 57)"

definition digits_value :: "string \<Rightarrow> int" where
  "digits_value ds = foldl (\<lambda>acc c. acc * 10 + (of_char c - 48)) 0 ds"

definition stoi :: "string \<Rightarrow> stoi_result" where
  "stoi s =
     (let ws = takeWhile isspace s;
          r = dropWhile isspace s;
          neg = (r \<noteq> [] \<and> hd r = CHR ''-'');
          signed = (r \<noteq> [] \<and> (hd r = CHR ''-'' \<or> hd r = CHR ''+''));
          ds = takeWhile isdigit (if signed then tl r else r);
          v = (if neg then - digits_value ds else digits_value ds)
      in if ds = [] then Stoi_invalid_argument
         else if v < - (2 ^ 31) \<or> 2 ^ 31 - 1 < v then Stoi_out_of_range
         else Stoi_value v (length ws + (if signed then 1 else 0) + length ds))"

section \<open>The state of main\<close>

text \<open>
  The \<open>Program\<close> enum names the programs; an enumerator converts to its position.
  (The enumerator SUM is written \<open>SUM_PROG\<close> here: \<open>SUM\<close> is notation of HOL.)
\<close>

datatype Program = COPY_TO_IPU | ADD_SOMETHING | MULTIPLY_SOMETHING_NUM_TIMES | SUM_PROG | COPY_FROM_IPU

fun Program_index :: "Program \<Rightarrow> nat" where
  "Program_index COPY_TO_IPU = 0"
| "Program_index ADD_SOMETHING = 1"
| "Program_index MULTIPLY_SOMETHING_NUM_TIMES = 2"
| "Program_index SUM_PROG = 3"
| "Program_index COPY_FROM_IPU = 4"

text \<open>
  The graph, as far as the program builds it. A tensor is named by the variable of
  main that holds it; a view of a tensor is the list of the row-major positions of its
  elements, in order.
\<close>

datatype tensor_var = five | ten | tensor0 | tensor1

type_synonym view = "tensor_var \<times> nat list"

datatype compute_set = computeSet0 | computeSet1 | computeSet2

record vertex =
  vtx_set :: compute_set
  vtx_codelet :: string
  vtx_fields :: "(string \<times> view) list"
  vtx_tile :: nat
  vtx_perf :: nat

datatype fifo_direction = HostToDevice | DeviceToHost

record Graph =
  constants :: "(tensor_var \<times> cint) list"
  variables :: "(tensor_var \<times> nat list) list"
  vertices :: "vertex list"
  fifos :: "(string \<times> fifo_direction \<times> nat) list"

datatype endpoint = Stream string | Tensor tensor_var

datatype poplar_program =
    Copy endpoint endpoint
  | Execute compute_set
  | Repeat nat poplar_program
  | Sequence "poplar_program list"

datatype host_buffer = Buffer_in | Buffer_out

type_synonym memory = "tensor_var \<Rightarrow> cint list"
type_synonym host_memory = "host_buffer \<Rightarrow> cint list"

text \<open>
  What the run does outside the program text, recorded in order: calls into the SDK
  that can throw outside the \<open>try\<close> block, the attaching of a hardware device (by the
  device's name), readings of the steady clock taken for \<open>start\<close>, and calls of \<open>timeIt\<close>
  (with the start point passed and the clock reading taken). What is written to the
  streams is recorded item by item, one for every operand of \<open><<\<close>. A run ends in one
  of four ways: \<open>exit\<close> with a code, an exception nothing catches, a failed assertion (at
  an index of the output buffer), or the return from main.
\<close>

datatype sdk_call =
    CreateModelDevice
  | BuildGraph
  | EngineConstruct
  | EngineLoad
  | ConnectStream string
  | EngineRun nat

datatype event = Sdk sdk_call | AttachedTo nat | Started int | Timed int int

datatype out_item = Str string | Chr char | Unsigned unsigned | Double real

datatype status =
    Running
  | Exited int
  | Terminated sdk_call
  | Assert_failed nat
  | Returned int

record main_state =
  status :: status
  cerr :: "out_item list"
  cout :: "out_item list"
  events :: "event list"
  clock_reads :: nat
  num_ipus :: unsigned
  num_tiles_per_ipu :: unsigned
  device :: Device
  num_workers :: unsigned
  num_tiles :: unsigned
  num_workers_total :: unsigned
  graph :: Graph
  programs :: "poplar_program list"
  buffer_in :: "cint list"
  buffer_out :: "cint list"
  start :: int
  streams :: "(string \<times> host_buffer) list"
  memory :: memory

text \<open>
  What the program does not decide: the devices the device manager offers for a number
  of IPUs, the device an IPUModel creates, the readings of the steady clock (the k-th
  reading, in nanoseconds), which SDK calls throw, and the contents of device memory
  that was never written.
\<close>

record environment =
  hw_devices :: "unsigned \<Rightarrow> Device list"
  model_device :: Device
  steady_clock :: "nat \<Rightarrow> int"
  throws :: "sdk_call \<Rightarrow> bool"
  uninitialised :: "tensor_var \<Rightarrow> nat \<Rightarrow> cint"

text \<open>A default-constructed \<open>poplar::Device\<close>, before one is assigned.\<close>

definition default_Device :: Device where
  "default_Device = \<lparr>dev_name = 0, dev_kind = Simulated, attach = False, getNumWorkerContexts = 0\<rparr>"

definition initial_state :: main_state where
  "initial_state =
     \<lparr>status = Running, cerr = [], cout = [], events = [], clock_reads = 0,
      num_ipus = 1, num_tiles_per_ipu = 2,
      device = default_Device, num_workers = 0, num_tiles = 0, num_workers_total = 0,
      graph = \<lparr>constants = [], variables = [], vertices = [], fifos = []\<rparr>,
      programs = [], buffer_in = [], buffer_out = [], start = 0,
      streams = [], memory = (\<lambda>_. [])\<rparr>"

definition print_err :: "out_item list \<Rightarrow> main_state \<Rightarrow> main_state" where
  "print_err items st = st\<lparr>cerr := cerr st @ items\<rparr>"

definition print :: "out_item list \<Rightarrow> main_state \<Rightarrow> main_state" where
  "print items st = st\<lparr>cout := cout st @ items\<rparr>"

definition exit_with :: "int \<Rightarrow> main_state \<Rightarrow> main_state" where
  "exit_with code st = st\<lparr>status := Exited code\<rparr>"

definition newline :: char where
  "newline = CHR 0x0A"

text \<open>
  The argument vector \<open>argv\<close> is modelled whole, with the program's name at position 0;
  \<open>argc\<close> is its length. The first argument is the number of IPUs (lines 57 to 88); the
  assignment converts the \<open>int\<close> that \<open>std::stoi\<close> returns to \<open>unsigned\<close>.
\<close>

definition parse_num_ipus :: "string list \<Rightarrow> main_state \<Rightarrow> main_state" where
  "parse_num_ipus argv st =
     (if length argv > 1 then
        (let s = argv ! 1 in
         case stoi s of
           Stoi_invalid_argument \<Rightarrow>
             exit_with (- 1) (print_err [Str ''Invalid number of IPUs: '', Str s, Chr newline] st)
         | Stoi_out_of_range \<Rightarrow>
             exit_with (- 1) (print_err [Str ''Number of IPUs out of range: '', Str s, Chr newline] st)
         | Stoi_value v pos \<Rightarrow>
             (let st1 = st\<lparr>num_ipus := word_of_int v\<rparr> in
              if pos < length s then
                exit_with (- 1)
                  (print_err [Str ''Trailing characters after number of IPUs: '', Str s, Chr newline] st1)
              else if num_ipus st1 < 1 \<or> num_ipus st1 > 4 then
                exit_with (- 1)
                  (print_err [Str (''Number of IPUs must be between 1 and 4!'' @ [newline])] st1)
              else st1))
      else st)"

text \<open>The second argument: the number of tiles per IPU (lines 90 to 121).\<close>

definition parse_num_tiles :: "string list \<Rightarrow> main_state \<Rightarrow> main_state" where
  "parse_num_tiles argv st =
     (if length argv > 2 then
        (let s = argv ! 2 in
         case stoi s of
           Stoi_invalid_argument \<Rightarrow>
             exit_with (- 1) (print_err [Str ''Invalid number of tiles: '', Str s, Chr newline] st)
         | Stoi_out_of_range \<Rightarrow>
             exit_with (- 1) (print_err [Str ''Number of tiles out of range: '', Str s, Chr newline] st)
         | Stoi_value v pos \<Rightarrow>
             (let st1 = st\<lparr>num_tiles_per_ipu := word_of_int v\<rparr> in
              if pos < length s then
                exit_with (- 1)
                  (print_err [Str ''Trailing characters after number of tiles: '', Str s, Chr newline] st1)
              else if num_tiles_per_ipu st1 < 1 \<or> num_tiles_per_ipu st1 > 1472 then
                exit_with (- 1)
                  (print_err [Str (''Number of tiles per IPU must be between 1 and 1472!'' @ [newline])] st1)
              else st1))
      else st)"

text \<open>
  A statement of main runs only while the program is still running: after \<open>exit\<close>, an
  uncaught exception or a failed assertion nothing more happens.
\<close>

definition step :: "(main_state \<Rightarrow> main_state) \<Rightarrow> main_state \<Rightarrow> main_state" where
  "step f st = (if status st = Running then f st else st)"

definition parse_arguments :: "string list \<Rightarrow> main_state" where
  "parse_arguments argv = step (parse_num_tiles argv) (step (parse_num_ipus argv) initial_state)"

text \<open>
  What it means for an argument to be acceptable: \<open>std::stoi\<close> reads all of it, and the
  value lies between 1 and the limit.
\<close>

definition parses_fully_within :: "int \<Rightarrow> string \<Rightarrow> bool" where
  "parses_fully_within limit s =
     (case stoi s of
        Stoi_value v pos \<Rightarrow> pos = length s \<and> 1 \<le> v \<and> v \<le> limit
      | Stoi_invalid_argument \<Rightarrow> False
      | Stoi_out_of_range \<Rightarrow> False)"

section \<open>Acquiring the device (main, lines 123 to 147)\<close>

definition ipu_string :: "unsigned \<Rightarrow> string" where
  "ipu_string n = (if n > 1 then ''IPUs'' else ''IPU'')"

definition terminate :: "sdk_call \<Rightarrow> main_state \<Rightarrow> main_state" where
  "terminate c st = st\<lparr>status := Terminated c\<rparr>"

definition log_event :: "event \<Rightarrow> main_state \<Rightarrow> main_state" where
  "log_event e st = st\<lparr>events := events st @ [e]\<rparr>"

text \<open>
  The \<open>try\<close> block calls \<open>setIpuDevice\<close>; the \<open>catch (...)\<close> block is the fallback to an
  IPUModel. Creating the model's device happens inside the handler, so an exception
  there is not caught.
\<close>

definition acquire_device :: "environment \<Rightarrow> main_state \<Rightarrow> main_state" where
  "acquire_device env st =
     (case setIpuDevice (hw_devices env) (num_ipus st) of
        Inr d \<Rightarrow>
          print [Str ''Using '', Unsigned (num_ipus st), Str '' '', Str (ipu_string (num_ipus st)),
                 Str '' and '', Unsigned (num_tiles_per_ipu st), Str ('' tiles per IPU.'' @ [newline])]
            (log_event (AttachedTo (dev_name d)) (st\<lparr>device := d\<rparr>))
      | Inl e \<Rightarrow>
          (let st1 = print [Str ''Unable to connect to a device with '', Unsigned (num_ipus st),
                            Str '' '', Str (ipu_string (num_ipus st)), Str (''.'' @ [newline])] st;
               st2 = print [Str ''Using an IPUModel with 1 IPU and '',
                            Unsigned (num_tiles_per_ipu st1), Str ('' tiles per IPU.'' @ [newline])] st1;
               st3 = print [Str (''Ignore timing statistics.'' @ [newline])] st2;
               st4 = st3\<lparr>num_ipus := 1\<rparr>
           in if throws env CreateModelDevice then terminate CreateModelDevice st4
              else log_event (Sdk CreateModelDevice) (st4\<lparr>device := model_device env\<rparr>)))"

section \<open>Building the graph (main, lines 149 to 289)\<close>

text \<open>
  Views of tensors: \<open>t[i]\<close> of a one-dimensional tensor, a scalar, and
  \<open>t.slice({r0, c0}, {r1, c1}).flatten()\<close> of a two-dimensional tensor with \<open>ncols\<close>
  columns, stored row-major.
\<close>

definition element :: "tensor_var \<Rightarrow> nat \<Rightarrow> view" where
  "element t i = (t, [i])"

definition scalar :: "tensor_var \<Rightarrow> view" where
  "scalar t = (t, [0])"

definition slice_flatten :: "tensor_var \<Rightarrow> nat \<Rightarrow> nat \<times> nat \<Rightarrow> nat \<times> nat \<Rightarrow> view" where
  "slice_flatten t ncols b e =
     (t, concat (map (\<lambda>r. map (\<lambda>c. r * ncols + c) [snd b..<snd e]) [fst b..<fst e]))"

text \<open>
  The body of the loop over the vertex index \<open>i\<close> (lines 215 to 252): three vertices,
  their connections, their tile and their performance estimates, with \<open>nw\<close> for
  \<open>num_workers\<close> and \<open>ntotal\<close> for \<open>num_workers_total\<close>. \<open>i / num_workers\<close> is
  unsigned division; \<open>std::floor\<close> turns the quotient into a double and the call of
  \<open>setTileMapping\<close> turns it back into an unsigned, both exactly, since every 32-bit
  value is a double.
\<close>

definition loop_body :: "unsigned \<Rightarrow> nat \<Rightarrow> vertex list" where
  "loop_body nw i =
     (let tile = i div unat nw in
      [\<lparr>vtx_set = computeSet0, vtx_codelet = ''AddSomething'',
        vtx_fields = [(''something'', scalar five), (''input_output'', element tensor0 i)],
        vtx_tile = tile, vtx_perf = 1\<rparr>,
       \<lparr>vtx_set = computeSet1, vtx_codelet = ''MultiplySomethingNumTimes'',
        vtx_fields = [(''something'', scalar ten), (''input'', element tensor0 i),
                      (''output'', slice_flatten tensor1 20 (i, 0) (i + 1, 20))],
        vtx_tile = tile, vtx_perf = 120\<rparr>,
       \<lparr>vtx_set = computeSet2, vtx_codelet = ''Sum'',
        vtx_fields = [(''input'', slice_flatten tensor1 20 (i, 0) (i + 1, 20)),
                      (''output'', element tensor0 i)],
        vtx_tile = tile, vtx_perf = 20\<rparr>])"

definition add_vertices :: "unsigned \<Rightarrow> unsigned \<Rightarrow> vertex list" where
  "add_vertices ntotal nw = concat (map (loop_body nw) [0..<unat ntotal])"

definition copy_input :: poplar_program where
  "copy_input = Copy (Stream ''input_write'') (Tensor tensor0)"

definition copy_output :: poplar_program where
  "copy_output = Copy (Tensor tensor0) (Stream ''output_read'')"

definition add_sequence :: poplar_program where
  "add_sequence = Sequence [Repeat 100 (Execute computeSet0)]"

text \<open>
  The tile mapping of the tensors themselves (\<open>setTileMapping\<close> of the constants,
  \<open>mapTensorLinearly\<close>) places data and does not change what the programs compute; it
  is not part of the model.
\<close>

definition build_graph :: "environment \<Rightarrow> main_state \<Rightarrow> main_state" where
  "build_graph env st =
     (let nw = getNumWorkerContexts (device st);
          nt = num_ipus st * num_tiles_per_ipu st;
          ntotal = num_ipus st * num_tiles_per_ipu st * nw;
          st1 = st\<lparr>num_workers := nw, num_tiles := nt, num_workers_total := ntotal\<rparr>
      in if throws env BuildGraph then terminate BuildGraph st1
         else log_event (Sdk BuildGraph)
           (st1\<lparr>graph :=
                  \<lparr>constants = [(five, 5), (ten, 10)],
                   variables = [(tensor0, [unat ntotal]), (tensor1, [unat ntotal, 20])],
                   vertices = add_vertices ntotal nw,
                   fifos = [(''input_write'', HostToDevice, unat ntotal),
                            (''output_read'', DeviceToHost, unat ntotal)]\<rparr>,
                programs := [copy_input, add_sequence, Execute computeSet1,
                             Execute computeSet2, copy_output]\<rparr>))"

text \<open>The host buffers (lines 291 to 294); the input buffer is filled with zeros.\<close>

definition create_buffers :: "main_state \<Rightarrow> main_state" where
  "create_buffers st =
     st\<lparr>buffer_in := map (\<lambda>_. 0) (replicate (unat (num_workers_total st)) (0 :: cint)),
        buffer_out := replicate (unat (num_workers_total st)) 0\<rparr>"

section \<open>The other two codelets\<close>

text \<open>
  Modelled from the spec: the codelets MultiplySomethingNumTimes and Sum. Their files
  (src/MultiplySomethingNumTimesCodelet.cpp, src/SumCodelet.cpp) are not among the
  sources. The spec names them "multiply-and-replicate" and "reduce-sum"; the README
  says: "Multiply an item in the tensor by a constant a number of times, creating num
  outputs for a single input, i.e. duplicating the output num times" and "Sum the items
  in a tensor". The number of outputs is the size of the connected output view.
\<close>

definition MultiplySomethingNumTimes_compute :: "cint \<Rightarrow> cint \<Rightarrow> nat \<Rightarrow> cint list \<times> bool" where
  "MultiplySomethingNumTimes_compute smth inp n = (replicate n (inp * smth), True)"

definition Sum_compute :: "cint list \<Rightarrow> cint \<times> bool" where
  "Sum_compute inp = (sum_list inp, True)"

section \<open>Running programs on the device\<close>

text \<open>
  Device memory holds the elements of every tensor, row-major. Reading or writing a
  view outside its tensor is a failure (\<open>None\<close>), as is a vertex whose fields are not
  connected as its codelet expects. The vertices of a compute set are run one after
  the other, in the order in which they were added; on the device they run in
  parallel, which gives the same memory here, since no vertex of a set reads or writes
  an element that another vertex of the set writes.
\<close>

definition read_view :: "memory \<Rightarrow> view \<Rightarrow> cint list option" where
  "read_view mem v =
     (if \<forall>i \<in> set (snd v). i < length (mem (fst v))
      then Some (map (\<lambda>i. mem (fst v) ! i) (snd v)) else None)"

definition write_view :: "memory \<Rightarrow> view \<Rightarrow> cint list \<Rightarrow> memory option" where
  "write_view mem v xs =
     (if length xs = length (snd v) \<and> (\<forall>i \<in> set (snd v). i < length (mem (fst v)))
      then Some (mem (fst v := fold (\<lambda>(i, x) ys. ys[i := x]) (zip (snd v) xs) (mem (fst v))))
      else None)"

definition field :: "vertex \<Rightarrow> string \<Rightarrow> memory \<Rightarrow> cint list option" where
  "field v name mem =
     (case map_of (vtx_fields v) name of None \<Rightarrow> None | Some vw \<Rightarrow> read_view mem vw)"

definition set_field :: "vertex \<Rightarrow> string \<Rightarrow> cint list \<Rightarrow> memory \<Rightarrow> memory option" where
  "set_field v name xs mem =
     (case map_of (vtx_fields v) name of None \<Rightarrow> None | Some vw \<Rightarrow> write_view mem vw xs)"

definition run_vertex :: "vertex \<Rightarrow> memory \<Rightarrow> memory option" where
  "run_vertex v mem =
     (if vtx_codelet v = ''AddSomething'' then
        (case (field v ''something'' mem, field v ''input_output'' mem) of
           (Some [s], Some [x]) \<Rightarrow>
             (let (v', ok) = AddSomething_compute \<lparr>something = s, input_output = x\<rparr>
              in if ok then set_field v ''input_output'' [input_output v'] mem else None)
         | _ \<Rightarrow> None)
      else if vtx_codelet v = ''MultiplySomethingNumTimes'' then
        (case (field v ''something'' mem, field v ''input'' mem, field v ''output'' mem) of
           (Some [s], Some [x], Some out) \<Rightarrow>
             (let (out', ok) = MultiplySomethingNumTimes_compute s x (length out)
              in if ok then set_field v ''output'' out' mem else None)
         | _ \<Rightarrow> None)
      else if vtx_codelet v = ''Sum'' then
        (case (field v ''input'' mem, field v ''output'' mem) of
           (Some inp, Some [y]) \<Rightarrow>
             (let (y', ok) = Sum_compute inp
              in if ok then set_field v ''output'' [y'] mem else None)
         | _ \<Rightarrow> None)
      else None)"

fun run_vertices :: "vertex list \<Rightarrow> memory \<Rightarrow> memory option" where
  "run_vertices [] mem = Some mem"
| "run_vertices (v # vs) mem =
     (case run_vertex v mem of None \<Rightarrow> None | Some mem' \<Rightarrow> run_vertices vs mem')"

text \<open>
  A copy between a stream and a tensor moves as many elements as the FIFO of that name
  and direction has; the tensor must have that size and the connected host buffer must
  be at least that long.
\<close>

definition fifo_size :: "Graph \<Rightarrow> string \<Rightarrow> fifo_direction \<Rightarrow> nat option" where
  "fifo_size g name dir =
     (case map_of (fifos g) name of
        Some (d, n) \<Rightarrow> if d = dir then Some n else None
      | None \<Rightarrow> None)"

definition copy :: "Graph \<Rightarrow> (string \<times> host_buffer) list \<Rightarrow> endpoint \<Rightarrow> endpoint
    \<Rightarrow> memory \<times> host_memory \<Rightarrow> (memory \<times> host_memory) option" where
  "copy g conn src dst m =
     (case (src, dst) of
        (Stream name, Tensor t) \<Rightarrow>
          (case (fifo_size g name HostToDevice, map_of conn name) of
             (Some n, Some b) \<Rightarrow>
               if length (fst m t) = n \<and> n \<le> length (snd m b)
               then Some ((fst m) (t := take n (snd m b)), snd m) else None
           | _ \<Rightarrow> None)
      | (Tensor t, Stream name) \<Rightarrow>
          (case (fifo_size g name DeviceToHost, map_of conn name) of
             (Some n, Some b) \<Rightarrow>
               if length (fst m t) = n \<and> n \<le> length (snd m b)
               then Some (fst m, (snd m) (b := fst m t @ drop n (snd m b))) else None
           | _ \<Rightarrow> None)
      | (Tensor t, Tensor u) \<Rightarrow>
          if length (fst m t) = length (fst m u) then Some ((fst m) (u := fst m t), snd m) else None
      | (Stream name, Stream name') \<Rightarrow> None)"

fun repeat :: "nat \<Rightarrow> ('a \<Rightarrow> 'a option) \<Rightarrow> 'a \<Rightarrow> 'a option" where
  "repeat 0 f m = Some m"
| "repeat (Suc n) f m = (case f m of None \<Rightarrow> None | Some m' \<Rightarrow> repeat n f m')"

fun in_order :: "('a \<Rightarrow> 'a option) list \<Rightarrow> 'a \<Rightarrow> 'a option" where
  "in_order [] m = Some m"
| "in_order (f # fs) m = (case f m of None \<Rightarrow> None | Some m' \<Rightarrow> in_order fs m')"

primrec exec :: "Graph \<Rightarrow> (string \<times> host_buffer) list \<Rightarrow> poplar_program
    \<Rightarrow> memory \<times> host_memory \<Rightarrow> (memory \<times> host_memory) option" where
  "exec g conn (Copy src dst) = copy g conn src dst"
| "exec g conn (Execute cs) =
     (\<lambda>m. case run_vertices (filter (\<lambda>v. vtx_set v = cs) (vertices g)) (fst m) of
             None \<Rightarrow> None | Some mem' \<Rightarrow> Some (mem', snd m))"
| "exec g conn (Repeat n p) = repeat n (exec g conn p)"
| "exec g conn (Sequence ps) = in_order (map (exec g conn) ps)"

section \<open>Compiling, loading, running and validating (main, lines 296 to 355)\<close>

text \<open>
  A double has a significand of 53 bits. Converting an integer to double and dividing
  one double by another both give the double nearest to the exact result, and of two
  doubles equally near the one whose significand is even. \<open>round_to_even\<close> is the nearest
  integer with that rule for a tie; \<open>binary_exponent x\<close> is, for a positive \<open>x\<close>, the
  exponent \<open>k\<close> with \<open>2 powi k \<le> x < 2 powi (k + 1)\<close>; \<open>to_double\<close> scales the value so
  that its magnitude lies between \<open>2 ^ 52\<close> and \<open>2 ^ 53\<close>, rounds to an integer and scales
  back. The values rounded here are counts of nanoseconds held in 64 bits and their
  quotients by \<open>10 ^ 6\<close>: they are far from the subnormal range and from overflow, so the
  exponent is not bounded.
\<close>

definition round_to_even :: "real \<Rightarrow> int" where
  "round_to_even y =
     (let f = \<lfloor>y\<rfloor>; r = y - of_int f
      in if r < 1 / 2 then f else if 1 / 2 < r then f + 1 else if even f then f else f + 1)"

definition binary_exponent :: "real \<Rightarrow> int" where
  "binary_exponent x = (if 1 \<le> x then bitlen \<lfloor>x\<rfloor> - 1 else - bitlen (\<lceil>1 / x\<rceil> - 1))"

definition to_double :: "real \<Rightarrow> real" where
  "to_double x =
     (if x = 0 then 0
      else (let e = binary_exponent \<bar>x\<bar> - 52
            in of_int (round_to_even (x / 2 powi e)) * 2 powi e))"

text \<open>
  \<open>steady_clock::now()\<close> takes the next reading of the clock, a count of nanoseconds.
  \<open>timeIt\<close> takes one reading and returns
  \<open>std::chrono::duration<double, std::milli>(finish - start).count()\<close>: the count of
  nanoseconds from the start point to the reading is converted to double, and that
  double is divided by the double \<open>10 ^ 6\<close>, the number of nanoseconds in a millisecond.
\<close>

definition now :: "environment \<Rightarrow> main_state \<Rightarrow> int \<times> main_state" where
  "now env st = (steady_clock env (clock_reads st), st\<lparr>clock_reads := Suc (clock_reads st)\<rparr>)"

definition timeIt :: "environment \<Rightarrow> int \<Rightarrow> main_state \<Rightarrow> real \<times> main_state" where
  "timeIt env start_point st =
     (let (finish, st1) = now env st
      in (to_double (to_double (real_of_int (finish - start_point)) / 1000000),
          log_event (Timed start_point finish) st1))"

definition record_start :: "environment \<Rightarrow> main_state \<Rightarrow> main_state" where
  "record_start env st = (let (t, st1) = now env st in log_event (Started t) (st1\<lparr>start := t\<rparr>))"

definition print_took :: "environment \<Rightarrow> main_state \<Rightarrow> main_state" where
  "print_took env st =
     (let (ms, st1) = timeIt env (start st) st
      in print [Str ''  Took '', Double ms, Str ('' ms'' @ [newline])] st1)"

text \<open>A call into the SDK outside any \<open>try\<close> block: an exception ends the program.\<close>

definition sdk :: "environment \<Rightarrow> sdk_call \<Rightarrow> (main_state \<Rightarrow> main_state) \<Rightarrow> main_state \<Rightarrow> main_state" where
  "sdk env c f st = (if throws env c then terminate c st else f (log_event (Sdk c) st))"

definition engine_construct :: "environment \<Rightarrow> main_state \<Rightarrow> main_state" where
  "engine_construct env = sdk env EngineConstruct (\<lambda>st. st)"

text \<open>
  Loading puts the graph on the device: constants hold their values, variables hold
  whatever the memory held.
\<close>

definition initial_memory :: "environment \<Rightarrow> Graph \<Rightarrow> memory" where
  "initial_memory env g t =
     (case map_of (constants g) t of
        Some c \<Rightarrow> [c]
      | None \<Rightarrow>
          (case map_of (variables g) t of
             Some shape \<Rightarrow> map (uninitialised env t) [0..<prod_list shape]
           | None \<Rightarrow> []))"

definition engine_load :: "environment \<Rightarrow> main_state \<Rightarrow> main_state" where
  "engine_load env = sdk env EngineLoad (\<lambda>st. st\<lparr>memory := initial_memory env (graph st)\<rparr>)"

definition connectStream :: "environment \<Rightarrow> string \<Rightarrow> host_buffer \<Rightarrow> main_state \<Rightarrow> main_state" where
  "connectStream env name b =
     sdk env (ConnectStream name) (\<lambda>st. st\<lparr>streams := (name, b) # streams st\<rparr>)"

definition host_of :: "main_state \<Rightarrow> host_memory" where
  "host_of st b = (case b of Buffer_in \<Rightarrow> buffer_in st | Buffer_out \<Rightarrow> buffer_out st)"

text \<open>
  \<open>engine.run(p)\<close> runs the program at the position of the enumerator \<open>p\<close>. A position
  outside the vector, or a program that fails on the device, ends the run. The engine
  was constructed from the graph and the vector of programs; main changes neither
  afterwards, so they are read from the state.
\<close>

definition engine_run :: "environment \<Rightarrow> Program \<Rightarrow> main_state \<Rightarrow> main_state" where
  "engine_run env p =
     sdk env (EngineRun (Program_index p))
       (\<lambda>st. if Program_index p < length (programs st) then
               (case exec (graph st) (streams st) (programs st ! Program_index p)
                      (memory st, host_of st) of
                  None \<Rightarrow> terminate (EngineRun (Program_index p)) st
                | Some m \<Rightarrow>
                    st\<lparr>memory := fst m, buffer_in := snd m Buffer_in, buffer_out := snd m Buffer_out\<rparr>)
             else terminate (EngineRun (Program_index p)) st)"

text \<open>
  The validation loop (lines 346 to 350): the first index whose element is not 100000
  fails the assertion.
\<close>

function validation_loop :: "cint list \<Rightarrow> nat \<Rightarrow> nat option" where
  "validation_loop buf i =
     (if i < length buf
      then (if buf ! i = 100000 then validation_loop buf (Suc i) else Some i)
      else None)"
  by pat_completeness auto
termination
  by (relation "measure (\<lambda>(buf, i). length buf - i)") auto

declare validation_loop.simps [simp del]

definition validate :: "main_state \<Rightarrow> main_state" where
  "validate st =
     (case validation_loop (buffer_out st) 0 of
        Some i \<Rightarrow> st\<lparr>status := Assert_failed i\<rparr>
      | None \<Rightarrow> st)"

definition return_from_main :: "int \<Rightarrow> main_state \<Rightarrow> main_state" where
  "return_from_main code st = st\<lparr>status := Returned code\<rparr>"

section \<open>The whole of main\<close>

definition run_statements :: "(main_state \<Rightarrow> main_state) list \<Rightarrow> main_state \<Rightarrow> main_state" where
  "run_statements fs st = fold step fs st"

definition set_up :: "environment \<Rightarrow> (main_state \<Rightarrow> main_state) list" where
  "set_up env = [acquire_device env, build_graph env, create_buffers]"

definition compile_load_run :: "environment \<Rightarrow> (main_state \<Rightarrow> main_state) list" where
  "compile_load_run env =
     [record_start env,
      print [Str (newline # ''Compiling graph program...'' @ [newline])],
      engine_construct env,
      print_took env,

      print [Str (''Loading program on device...'' @ [newline])],
      record_start env,
      engine_load env,
      print_took env,

      connectStream env ''input_write'' Buffer_in,
      connectStream env ''output_read'' Buffer_out,

      print [Str (''Copying input data to IPU...'' @ [newline])],
      record_start env,
      engine_run env COPY_TO_IPU,
      print_took env,

      print [Str (''Running repeat add program...'' @ [newline])],
      record_start env,
      engine_run env ADD_SOMETHING,
      print_took env,

      print [Str (''Running multiply / clone program...'' @ [newline])],
      record_start env,
      engine_run env MULTIPLY_SOMETHING_NUM_TIMES,
      print_took env,

      print [Str (''Running sum program...'' @ [newline])],
      record_start env,
      engine_run env SUM_PROG,
      print_took env,

      print [Str (''Copying ouput data from IPU...'' @ [newline])],
      record_start env,
      engine_run env COPY_FROM_IPU,
      print_took env]"

definition check_output :: "(main_state \<Rightarrow> main_state) list" where
  "check_output =
     [print [Str (''Validating output...'' @ [newline])],
      validate,
      print [Str (''Done!'' @ [newline])],
      return_from_main 0]"

text \<open>
  The states main passes through: with the device acquired, the graph built and the
  buffers created; at the point where the validation loop is reached; and at its end.
\<close>

definition after_set_up :: "environment \<Rightarrow> string list \<Rightarrow> main_state" where
  "after_set_up env argv = run_statements (set_up env) (parse_arguments argv)"

definition before_validation :: "environment \<Rightarrow> string list \<Rightarrow> main_state" where
  "before_validation env argv = run_statements (compile_load_run env) (after_set_up env argv)"

definition main :: "environment \<Rightarrow> string list \<Rightarrow> main_state" where
  "main env argv = run_statements check_output (before_validation env argv)"

text \<open>The two ways in which main can be before the validation loop: running, or ended by
  an exception that nothing caught.\<close>

fun running_or_terminated :: "status \<Rightarrow> bool" where
  "running_or_terminated Running = True"
| "running_or_terminated (Terminated c) = True"
| "running_or_terminated (Exited code) = False"
| "running_or_terminated (Assert_failed i) = False"
| "running_or_terminated (Returned code) = False"

text \<open>Whether main has ended through \<open>exit\<close>.\<close>

fun has_exited :: "status \<Rightarrow> bool" where
  "has_exited (Exited code) = True"
| "has_exited Running = False"
| "has_exited (Terminated c) = False"
| "has_exited (Assert_failed i) = False"
| "has_exited (Returned code) = False"

text \<open>What the fallback prints, for the requested numbers of IPUs and of tiles per IPU.\<close>

definition fallback_notice :: "unsigned \<Rightarrow> unsigned \<Rightarrow> out_item list" where
  "fallback_notice requested tiles =
     [Str ''Unable to connect to a device with '', Unsigned requested, Str '' '',
      Str (ipu_string requested), Str (''.'' @ [newline]),
      Str ''Using an IPUModel with 1 IPU and '', Unsigned tiles,
      Str ('' tiles per IPU.'' @ [newline]),
      Str (''Ignore timing statistics.'' @ [newline])]"

text \<open>
  What a timed phase leaves in the record of events when the clock has been read \<open>k\<close>
  times before: the start point is taken, the SDK call \<open>c\<close> of the phase is made, and
  \<open>timeIt\<close> is called with that start point and takes the next reading. The events of
  the statements from compiling to the last copy, when all of them run, are seven timed
  phases, with the two stream connections after the second.
\<close>

definition timed_phase :: "environment \<Rightarrow> nat \<Rightarrow> sdk_call \<Rightarrow> event list" where
  "timed_phase env k c =
     [Started (steady_clock env k), Sdk c,
      Timed (steady_clock env k) (steady_clock env (Suc k))]"

definition run_trace :: "environment \<Rightarrow> nat \<Rightarrow> event list" where
  "run_trace env k =
     timed_phase env k EngineConstruct @ timed_phase env (k + 2) EngineLoad
     @ [Sdk (ConnectStream ''input_write''), Sdk (ConnectStream ''output_read'')]
     @ timed_phase env (k + 4) (EngineRun 0) @ timed_phase env (k + 6) (EngineRun 1)
     @ timed_phase env (k + 8) (EngineRun 2) @ timed_phase env (k + 10) (EngineRun 3)
     @ timed_phase env (k + 12) (EngineRun 4)"

text \<open>The positions passed to \<open>engine.run\<close>, in the order of the calls.\<close>

fun engine_runs :: "event list \<Rightarrow> nat list" where
  "engine_runs [] = []"
| "engine_runs (Sdk (EngineRun k) # es) = k # engine_runs es"
| "engine_runs (e # es) = engine_runs es"

text \<open>
  A list of statements leaves a given record of events: started in a running state
  with the clock read \<open>k\<close> times, the events it adds are a prefix of \<open>T k\<close>, and all of
  \<open>T k\<close>, with \<open>r\<close> more readings of the clock, when the program is still running after it.
\<close>

definition leaves_events :: "(main_state \<Rightarrow> main_state) list \<Rightarrow> (nat \<Rightarrow> event list) \<Rightarrow> nat \<Rightarrow> bool" where
  "leaves_events fs T r \<longleftrightarrow>
     (\<forall>st. status st = Running \<longrightarrow>
        prefix (events (run_statements fs st)) (events st @ T (clock_reads st))
        \<and> (status (run_statements fs st) = Running \<longrightarrow>
             events (run_statements fs st) = events st @ T (clock_reads st)
             \<and> clock_reads (run_statements fs st) = clock_reads st + r))"

text \<open>The graph that \<open>build_graph\<close> stores, by the two numbers it depends on.\<close>

definition built_graph :: "unsigned \<Rightarrow> unsigned \<Rightarrow> Graph" where
  "built_graph ntotal nw =
     \<lparr>constants = [(five, 5), (ten, 10)],
      variables = [(tensor0, [unat ntotal]), (tensor1, [unat ntotal, 20])],
      vertices = add_vertices ntotal nw,
      fifos = [(''input_write'', HostToDevice, unat ntotal),
               (''output_read'', DeviceToHost, unat ntotal)]\<rparr>"

section \<open>Sample inputs\<close>

text \<open>
  Two hardware devices, the first of which cannot be attached, and an environment that
  offers them for two IPUs and nothing for any other number. Nothing throws; the clock
  advances by one microsecond between readings.
\<close>

definition dev_a :: Device where
  "dev_a = \<lparr>dev_name = 0, dev_kind = Hardware, attach = False, getNumWorkerContexts = 6\<rparr>"

definition dev_b :: Device where
  "dev_b = \<lparr>dev_name = 1, dev_kind = Hardware, attach = True, getNumWorkerContexts = 6\<rparr>"

definition dev_model :: Device where
  "dev_model = \<lparr>dev_name = 2, dev_kind = Simulated, attach = True, getNumWorkerContexts = 6\<rparr>"

definition sample_environment :: environment where
  "sample_environment =
     \<lparr>hw_devices = (\<lambda>n. if n = 2 then [dev_a, dev_b] else []),
      model_device = dev_model,
      steady_clock = (\<lambda>k. 1000 * int k),
      throws = (\<lambda>c. False),
      uninitialised = (\<lambda>t i. 12345)\<rparr>"

section \<open>Properties of the codelet\<close>

text \<open>
  C2: for every pair of values of the fields \<open>something\<close> and \<open>input_output\<close>, the
  compute method of AddSomething replaces \<open>input_output\<close> by \<open>input_output + something\<close>
  (32-bit addition), leaves \<open>something\<close> as it was, and returns true. Where the
  mathematical sum of the two signed values fits an \<open>int\<close>, the new signed value is that
  sum.
\<close>

theorem AddSomething_compute_adds:
  "AddSomething_compute \<lparr>something = s, input_output = x\<rparr>
     = (\<lparr>something = s, input_output = x + s\<rparr>, True)
   \<and> (- (2 ^ 31) \<le> sint x + sint s \<and> sint x + sint s < 2 ^ 31
        \<longrightarrow> sint (input_output (fst (AddSomething_compute \<lparr>something = s, input_output = x\<rparr>)))
              = sint x + sint s)"
proof -
  have run: "AddSomething_compute \<lparr>something = s, input_output = x\<rparr>
      = (\<lparr>something = s, input_output = x + s\<rparr>, True)"
    by (simp add: AddSomething_compute_def)
  have fits: "sint (x + s) = sint x + sint s"
    if "- (2 ^ 31) \<le> sint x + sint s" "sint x + sint s < 2 ^ 31"
  proof -
    have "sint (x + s) = signed_take_bit 31 (sint x + sint s)"
      by (simp add: sint_word_ariths)
    also have "\<dots> = sint x + sint s"
      using that by (simp add: signed_take_bit_int_eq_self)
    finally show ?thesis .
  qed
  show ?thesis using run fits by simp
qed

theorem AddSomething_compute_adds_witness:
  "AddSomething_compute \<lparr>something = 5, input_output = 495\<rparr>
     = (\<lparr>something = 5, input_output = 500\<rparr>, True)
   \<and> sint (input_output (fst (AddSomething_compute \<lparr>something = 5, input_output = 495\<rparr>))) = 500"
  using AddSomething_compute_adds [of 5 495] by simp

section \<open>Properties of device acquisition\<close>

lemma attach_first_Some:
  "attach_first ds = Some d \<longleftrightarrow>
     (\<exists>pre post. ds = pre @ d # post \<and> attach d \<and> (\<forall>x \<in> set pre. \<not> attach x))"
proof (induction ds)
  case Nil
  then show ?case by simp
next
  case (Cons a ds)
  show ?case
  proof (cases "attach a")
    case True
    have "(\<exists>pre post. a # ds = pre @ d # post \<and> attach d \<and> (\<forall>x \<in> set pre. \<not> attach x)) \<longleftrightarrow> a = d"
    proof
      assume "\<exists>pre post. a # ds = pre @ d # post \<and> attach d \<and> (\<forall>x \<in> set pre. \<not> attach x)"
      then obtain pre post where h: "a # ds = pre @ d # post" "\<forall>x \<in> set pre. \<not> attach x"
        by blast
      show "a = d"
      proof (cases pre)
        case Nil
        with h show ?thesis by simp
      next
        case (Cons p ps)
        with h True show ?thesis by auto
      qed
    next
      assume "a = d"
      with True have "a # ds = [] @ d # ds \<and> attach d \<and> (\<forall>x \<in> set []. \<not> attach x)" by simp
      then show "\<exists>pre post. a # ds = pre @ d # post \<and> attach d \<and> (\<forall>x \<in> set pre. \<not> attach x)"
        by blast
    qed
    with True show ?thesis by auto
  next
    case False
    have "(\<exists>pre post. a # ds = pre @ d # post \<and> attach d \<and> (\<forall>x \<in> set pre. \<not> attach x))
      \<longleftrightarrow> (\<exists>pre post. ds = pre @ d # post \<and> attach d \<and> (\<forall>x \<in> set pre. \<not> attach x))"
      (is "?L \<longleftrightarrow> ?R")
    proof
      assume ?L
      then obtain pre post where h: "a # ds = pre @ d # post" "attach d" "\<forall>x \<in> set pre. \<not> attach x"
        by blast
      show ?R
      proof (cases pre)
        case Nil
        with h False show ?thesis by simp
      next
        case (Cons p ps)
        with h have "ds = ps @ d # post \<and> attach d \<and> (\<forall>x \<in> set ps. \<not> attach x)" by simp
        then show ?thesis by blast
      qed
    next
      assume ?R
      then obtain pre post where h: "ds = pre @ d # post" "attach d" "\<forall>x \<in> set pre. \<not> attach x"
        by blast
      with False have "a # ds = (a # pre) @ d # post \<and> attach d \<and> (\<forall>x \<in> set (a # pre). \<not> attach x)"
        by simp
      then show ?L by blast
    qed
    with False Cons.IH show ?thesis by simp
  qed
qed

lemma attach_first_None: "attach_first ds = None \<longleftrightarrow> (\<forall>x \<in> set ds. \<not> attach x)"
  by (induction ds) auto

text \<open>
  C9: \<open>setIpuDevice\<close> returns a device exactly when that device is the first one, among
  those the device manager offers for the requested number of IPUs, whose \<open>attach()\<close>
  succeeds; so it never returns a device that did not attach. It throws exactly when
  there is no such device (none is offered, or none attaches), and what it throws is
  the runtime error "Unable to connect to IPU device!".
\<close>

theorem setIpuDevice_first_attaching:
  "(setIpuDevice getDevices n = Inr d \<longleftrightarrow>
      (\<exists>pre post. getDevices n = pre @ d # post \<and> attach d \<and> (\<forall>x \<in> set pre. \<not> attach x)))
   \<and> (setIpuDevice getDevices n = Inl e \<longleftrightarrow>
        e = Runtime_error ''Unable to connect to IPU device!''
        \<and> (getDevices n = [] \<or> (\<forall>x \<in> set (getDevices n). \<not> attach x)))"
proof -
  have r: "setIpuDevice getDevices n = Inr d \<longleftrightarrow> attach_first (getDevices n) = Some d"
    by (cases "getDevices n") (simp_all add: setIpuDevice_def split: option.splits)
  have l: "setIpuDevice getDevices n = Inl e \<longleftrightarrow>
      e = Runtime_error ''Unable to connect to IPU device!'' \<and> attach_first (getDevices n) = None"
    by (cases "getDevices n") (auto simp add: setIpuDevice_def split: option.splits)
  show ?thesis
    unfolding r l attach_first_Some attach_first_None by auto
qed

theorem setIpuDevice_first_attaching_witness:
  "setIpuDevice (\<lambda>n. if n = 2 then [dev_a, dev_b, dev_b\<lparr>dev_name := 2\<rparr>] else []) 2 = Inr dev_b
   \<and> setIpuDevice (\<lambda>n. if n = 2 then [dev_a, dev_b] else []) 4
       = Inl (Runtime_error ''Unable to connect to IPU device!'')"
proof -
  let ?offer = "\<lambda>n :: unsigned. if n = 2 then [dev_a, dev_b, dev_b\<lparr>dev_name := 2\<rparr>] else []"
  let ?none = "\<lambda>n :: unsigned. if n = 2 then [dev_a, dev_b] else []"
  have "?offer 2 = [dev_a] @ dev_b # [dev_b\<lparr>dev_name := 2\<rparr>] \<and> attach dev_b
      \<and> (\<forall>x \<in> set [dev_a]. \<not> attach x)"
    by (simp add: dev_a_def dev_b_def)
  then have "\<exists>pre post. ?offer 2 = pre @ dev_b # post \<and> attach dev_b \<and> (\<forall>x \<in> set pre. \<not> attach x)"
    by blast
  then have first: "setIpuDevice ?offer 2 = Inr dev_b"
    using setIpuDevice_first_attaching [where getDevices = ?offer and n = 2 and d = dev_b]
    by blast
  have "?none 4 = []" by simp
  then have second: "setIpuDevice ?none 4 = Inl (Runtime_error ''Unable to connect to IPU device!'')"
    using setIpuDevice_first_attaching [where getDevices = ?none and n = 4
        and e = "Runtime_error ''Unable to connect to IPU device!''"]
    by blast
  show ?thesis using first second by simp
qed

section \<open>Properties of command-line parsing\<close>

lemma stoi_value_bounds:
  assumes "stoi s = Stoi_value v pos"
  shows "pos \<le> length s" and "- (2 ^ 31) \<le> v" and "v < 2 ^ 31"
proof -
  let ?r = "dropWhile isspace s"
  let ?signed = "?r \<noteq> [] \<and> (hd ?r = CHR ''-'' \<or> hd ?r = CHR ''+'')"
  let ?ds = "takeWhile isdigit (if ?signed then tl ?r else ?r)"
  have split_len: "length (takeWhile isspace s) + length ?r = length s"
    by (metis length_append takeWhile_dropWhile_id)
  have "(if ?signed then 1 else 0) + length ?ds \<le> length ?r"
  proof (cases ?signed)
    case True
    then obtain c cs where r: "?r = c # cs" by (cases ?r) auto
    have "length (takeWhile isdigit cs) \<le> length cs"
      by (rule length_takeWhile_le)
    then have "1 + length (takeWhile isdigit (tl ?r)) \<le> length ?r"
      unfolding r by simp
    then show ?thesis unfolding if_P [OF True] by simp
  next
    case False
    have "length (takeWhile isdigit ?r) \<le> length ?r"
      by (rule length_takeWhile_le)
    then show ?thesis unfolding if_not_P [OF False] by simp
  qed
  then have upper: "length (takeWhile isspace s) + (if ?signed then 1 else 0) + length ?ds \<le> length s"
    using split_len by linarith
  define p' where "p' = length (takeWhile isspace s) + (if ?signed then 1 else 0) + length ?ds"
  define v' where "v' = (if ?r \<noteq> [] \<and> hd ?r = CHR ''-'' then - digits_value ?ds else digits_value ?ds)"
  define none where "none \<longleftrightarrow> ?ds = []"
  have "stoi s = (if none then Stoi_invalid_argument
         else if v' < - (2 ^ 31) \<or> 2 ^ 31 - 1 < v' then Stoi_out_of_range
         else Stoi_value v' p')"
    unfolding stoi_def Let_def p'_def v'_def none_def by (rule refl)
  with assms have "v = v' \<and> pos = p' \<and> \<not> (v' < - (2 ^ 31) \<or> 2 ^ 31 - 1 < v')"
    by (auto split: if_splits)
  then show "pos \<le> length s" "- (2 ^ 31) \<le> v" "v < 2 ^ 31"
    using upper by (simp_all add: p'_def)
qed

lemma unsigned_of_int_range:
  fixes v :: int
  assumes "- (2 ^ 31) \<le> v" "v < 2 ^ 31" "0 < k" "k < 2 ^ 31"
  shows "((word_of_int v :: unsigned) < 1 \<or> word_of_int v > (word_of_int k :: unsigned))
     \<longleftrightarrow> (v < 1 \<or> k < v)"
proof -
  have uk: "uint (word_of_int k :: unsigned) = k"
    using assms by (simp add: uint_word_of_int)
  show ?thesis
  proof (cases "0 \<le> v")
    case True
    then have "uint (word_of_int v :: unsigned) = v"
      using assms by (simp add: uint_word_of_int)
    then show ?thesis
      using uk by (auto simp add: word_less_def)
  next
    case False
    then have "uint (word_of_int v :: unsigned) = v + 2 ^ 32"
      using assms by (simp add: uint_word_of_int) (smt (verit) mod_add_self2 mod_pos_pos_trivial)
    then show ?thesis
      using uk False assms by (auto simp add: word_less_def)
  qed
qed


lemma run_statements_halted: "status st \<noteq> Running \<Longrightarrow> run_statements fs st = st"
  unfolding run_statements_def by (induction fs) (simp_all add: step_def)

lemma parse_num_ipus_accepts:
  assumes "1 < length argv" "parses_fully_within 4 (argv ! 1)"
  shows "status (parse_num_ipus argv st) = status st"
    and "cerr (parse_num_ipus argv st) = cerr st"
    and "cout (parse_num_ipus argv st) = cout st"
    and "events (parse_num_ipus argv st) = events st"
    and "num_tiles_per_ipu (parse_num_ipus argv st) = num_tiles_per_ipu st"
proof -
  obtain v pos where st: "stoi (argv ! 1) = Stoi_value v pos"
    and ok: "pos = length (argv ! 1)" "1 \<le> v" "v \<le> 4"
    using assms(2) by (auto simp add: parses_fully_within_def split: stoi_result.splits)
  have "\<not> ((word_of_int v :: unsigned) < 1 \<or> word_of_int v > (word_of_int 4 :: unsigned))"
    using unsigned_of_int_range [of v 4] stoi_value_bounds [OF st] ok by simp
  then have "\<not> ((word_of_int v :: unsigned) < 1 \<or> word_of_int v > (4 :: unsigned))" by simp
  then have "parse_num_ipus argv st = st\<lparr>num_ipus := word_of_int v\<rparr>"
    using assms(1) st ok by (simp add: parse_num_ipus_def Let_def)
  then show "status (parse_num_ipus argv st) = status st"
    and "cerr (parse_num_ipus argv st) = cerr st"
    and "cout (parse_num_ipus argv st) = cout st"
    and "events (parse_num_ipus argv st) = events st"
    and "num_tiles_per_ipu (parse_num_ipus argv st) = num_tiles_per_ipu st"
    by simp_all
qed

lemma parse_num_ipus_rejects:
  assumes "1 < length argv" "\<not> parses_fully_within 4 (argv ! 1)"
  shows "status (parse_num_ipus argv st) = Exited (- 1)"
    and "cerr (parse_num_ipus argv st) \<noteq> []"
    and "cout (parse_num_ipus argv st) = cout st"
    and "events (parse_num_ipus argv st) = events st"
proof -
  have all: "status (parse_num_ipus argv st) = Exited (- 1)
      \<and> cerr (parse_num_ipus argv st) \<noteq> []
      \<and> cout (parse_num_ipus argv st) = cout st
      \<and> events (parse_num_ipus argv st) = events st"
  proof (cases "stoi (argv ! 1)")
    case (Stoi_value v pos)
    note bounds = stoi_value_bounds [OF Stoi_value]
    show ?thesis
    proof (cases "pos < length (argv ! 1)")
      case True
      then show ?thesis
        using assms(1) Stoi_value
        by (simp add: parse_num_ipus_def Let_def exit_with_def print_err_def)
    next
      case False
      then have "pos = length (argv ! 1)" using bounds(1) by simp
      then have "v < 1 \<or> 4 < v"
        using assms(2) Stoi_value by (auto simp add: parses_fully_within_def)
      then have "(word_of_int v :: unsigned) < 1 \<or> word_of_int v > (word_of_int 4 :: unsigned)"
        using unsigned_of_int_range [of v 4] bounds by simp
      then have "(word_of_int v :: unsigned) < 1 \<or> word_of_int v > (4 :: unsigned)" by simp
      then show ?thesis
        using assms(1) Stoi_value False
        by (simp add: parse_num_ipus_def Let_def exit_with_def print_err_def)
    qed
  next
    case Stoi_invalid_argument
    then show ?thesis
      using assms(1) by (simp add: parse_num_ipus_def Let_def exit_with_def print_err_def)
  next
    case Stoi_out_of_range
    then show ?thesis
      using assms(1) by (simp add: parse_num_ipus_def Let_def exit_with_def print_err_def)
  qed
  from all show "status (parse_num_ipus argv st) = Exited (- 1)"
    and "cerr (parse_num_ipus argv st) \<noteq> []"
    and "cout (parse_num_ipus argv st) = cout st"
    and "events (parse_num_ipus argv st) = events st"
    by simp_all
qed

lemma parse_num_tiles_accepts:
  assumes "2 < length argv" "parses_fully_within 1472 (argv ! 2)"
  shows "status (parse_num_tiles argv st) = status st"
    and "cerr (parse_num_tiles argv st) = cerr st"
    and "cout (parse_num_tiles argv st) = cout st"
    and "events (parse_num_tiles argv st) = events st"
    and "num_ipus (parse_num_tiles argv st) = num_ipus st"
proof -
  obtain v pos where st: "stoi (argv ! 2) = Stoi_value v pos"
    and ok: "pos = length (argv ! 2)" "1 \<le> v" "v \<le> 1472"
    using assms(2) by (auto simp add: parses_fully_within_def split: stoi_result.splits)
  have "\<not> ((word_of_int v :: unsigned) < 1 \<or> word_of_int v > (word_of_int 1472 :: unsigned))"
    using unsigned_of_int_range [of v 1472] stoi_value_bounds [OF st] ok by simp
  then have "\<not> ((word_of_int v :: unsigned) < 1 \<or> word_of_int v > (1472 :: unsigned))" by simp
  then have "parse_num_tiles argv st = st\<lparr>num_tiles_per_ipu := word_of_int v\<rparr>"
    using assms(1) st ok by (simp add: parse_num_tiles_def Let_def)
  then show "status (parse_num_tiles argv st) = status st"
    and "cerr (parse_num_tiles argv st) = cerr st"
    and "cout (parse_num_tiles argv st) = cout st"
    and "events (parse_num_tiles argv st) = events st"
    and "num_ipus (parse_num_tiles argv st) = num_ipus st"
    by simp_all
qed

lemma parse_num_tiles_rejects:
  assumes "2 < length argv" "\<not> parses_fully_within 1472 (argv ! 2)"
  shows "status (parse_num_tiles argv st) = Exited (- 1)"
    and "cerr (parse_num_tiles argv st) \<noteq> []"
    and "cout (parse_num_tiles argv st) = cout st"
    and "events (parse_num_tiles argv st) = events st"
proof -
  have all: "status (parse_num_tiles argv st) = Exited (- 1)
      \<and> cerr (parse_num_tiles argv st) \<noteq> []
      \<and> cout (parse_num_tiles argv st) = cout st
      \<and> events (parse_num_tiles argv st) = events st"
  proof (cases "stoi (argv ! 2)")
    case (Stoi_value v pos)
    note bounds = stoi_value_bounds [OF Stoi_value]
    show ?thesis
    proof (cases "pos < length (argv ! 2)")
      case True
      then show ?thesis
        using assms(1) Stoi_value
        by (simp add: parse_num_tiles_def Let_def exit_with_def print_err_def)
    next
      case False
      then have "pos = length (argv ! 2)" using bounds(1) by simp
      then have "v < 1 \<or> 1472 < v"
        using assms(2) Stoi_value by (auto simp add: parses_fully_within_def)
      then have "(word_of_int v :: unsigned) < 1 \<or> word_of_int v > (word_of_int 1472 :: unsigned)"
        using unsigned_of_int_range [of v 1472] bounds by simp
      then have "(word_of_int v :: unsigned) < 1 \<or> word_of_int v > (1472 :: unsigned)" by simp
      then show ?thesis
        using assms(1) Stoi_value False
        by (simp add: parse_num_tiles_def Let_def exit_with_def print_err_def)
    qed
  next
    case Stoi_invalid_argument
    then show ?thesis
      using assms(1) by (simp add: parse_num_tiles_def Let_def exit_with_def print_err_def)
  next
    case Stoi_out_of_range
    then show ?thesis
      using assms(1) by (simp add: parse_num_tiles_def Let_def exit_with_def print_err_def)
  qed
  from all show "status (parse_num_tiles argv st) = Exited (- 1)"
    and "cerr (parse_num_tiles argv st) \<noteq> []"
    and "cout (parse_num_tiles argv st) = cout st"
    and "events (parse_num_tiles argv st) = events st"
    by simp_all
qed


lemma parse_num_ipus_absent:
  "\<not> 1 < length argv \<Longrightarrow> parse_num_ipus argv st = st"
  by (simp add: parse_num_ipus_def)

lemma parse_num_tiles_absent:
  "\<not> 2 < length argv \<Longrightarrow> parse_num_tiles argv st = st"
  by (simp add: parse_num_tiles_def)

lemma initial_state_fields:
  "status initial_state = Running" "cerr initial_state = []" "cout initial_state = []"
  "events initial_state = []" "num_ipus initial_state = 1" "num_tiles_per_ipu initial_state = 2"
  by (simp_all add: initial_state_def)

lemma parse_arguments_first_rejected:
  assumes "1 < length argv" "\<not> parses_fully_within 4 (argv ! 1)"
  shows "status (parse_arguments argv) = Exited (- 1)" "cerr (parse_arguments argv) \<noteq> []"
    "cout (parse_arguments argv) = []" "events (parse_arguments argv) = []"
  using parse_num_ipus_rejects [OF assms, of initial_state]
  by (simp_all add: parse_arguments_def step_def initial_state_fields)

lemma parse_arguments_second_rejected:
  assumes "2 < length argv" "parses_fully_within 4 (argv ! 1)"
    "\<not> parses_fully_within 1472 (argv ! 2)"
  shows "status (parse_arguments argv) = Exited (- 1)" "cerr (parse_arguments argv) \<noteq> []"
    "cout (parse_arguments argv) = []" "events (parse_arguments argv) = []"
proof -
  have one: "1 < length argv" using assms(1) by simp
  note first = parse_num_ipus_accepts [OF one assms(2), of initial_state]
  note second = parse_num_tiles_rejects [OF assms(1) assms(3), of "parse_num_ipus argv initial_state"]
  show "status (parse_arguments argv) = Exited (- 1)" "cerr (parse_arguments argv) \<noteq> []"
    "cout (parse_arguments argv) = []" "events (parse_arguments argv) = []"
    using first second by (simp_all add: parse_arguments_def step_def initial_state_fields)
qed

lemma parse_arguments_accepted:
  assumes "1 < length argv \<longrightarrow> parses_fully_within 4 (argv ! 1)"
    "2 < length argv \<longrightarrow> parses_fully_within 1472 (argv ! 2)"
  shows "status (parse_arguments argv) = Running" "cerr (parse_arguments argv) = []"
    "cout (parse_arguments argv) = []" "events (parse_arguments argv) = []"
proof -
  have first: "status (parse_num_ipus argv initial_state) = Running
      \<and> cerr (parse_num_ipus argv initial_state) = []
      \<and> cout (parse_num_ipus argv initial_state) = []
      \<and> events (parse_num_ipus argv initial_state) = []"
  proof (cases "1 < length argv")
    case True
    then show ?thesis
      using parse_num_ipus_accepts [OF True, of initial_state] assms(1)
      by (simp add: initial_state_fields)
  next
    case False
    then show ?thesis by (simp add: parse_num_ipus_absent initial_state_fields)
  qed
  have second: "status (parse_num_tiles argv st) = status st
      \<and> cerr (parse_num_tiles argv st) = cerr st
      \<and> cout (parse_num_tiles argv st) = cout st
      \<and> events (parse_num_tiles argv st) = events st" for st
  proof (cases "2 < length argv")
    case True
    then show ?thesis
      using parse_num_tiles_accepts [OF True, of st] assms(2) by simp
  next
    case False
    then show ?thesis by (simp add: parse_num_tiles_absent)
  qed
  show "status (parse_arguments argv) = Running" "cerr (parse_arguments argv) = []"
    "cout (parse_arguments argv) = []" "events (parse_arguments argv) = []"
    using first second [of "parse_num_ipus argv initial_state"]
    by (simp_all add: parse_arguments_def step_def initial_state_fields)
qed

lemma main_after_exit:
  "status (parse_arguments argv) \<noteq> Running \<Longrightarrow> main env argv = parse_arguments argv"
  by (simp add: main_def before_validation_def after_set_up_def run_statements_halted)

text \<open>
  C4: when the first argument is supplied and does not parse fully to a value between 1
  and 4 (no number, trailing characters, out of the range of \<open>std::stoi\<close>, or a value
  outside the limits), or the second is supplied and does not parse fully to a value
  between 1 and 1472, the program ends with \<open>exit(-1)\<close> after writing a message to
  \<open>cerr\<close>, having written nothing to \<open>cout\<close> and made no call to a device, the graph or
  the engine. Argument parsing is passed exactly when every supplied argument parses
  fully and lies within its limit.
\<close>

theorem invalid_arguments_exit:
  "(1 < length argv \<and> \<not> parses_fully_within 4 (argv ! 1)
      \<or> 2 < length argv \<and> \<not> parses_fully_within 1472 (argv ! 2)
    \<longrightarrow> status (main env argv) = Exited (- 1) \<and> cerr (main env argv) \<noteq> []
        \<and> cout (main env argv) = [] \<and> events (main env argv) = [])
   \<and> (status (parse_arguments argv) = Running
        \<longleftrightarrow> (1 < length argv \<longrightarrow> parses_fully_within 4 (argv ! 1))
          \<and> (2 < length argv \<longrightarrow> parses_fully_within 1472 (argv ! 2)))"
proof -
  let ?bad1 = "1 < length argv \<and> \<not> parses_fully_within 4 (argv ! 1)"
  let ?bad2 = "2 < length argv \<and> \<not> parses_fully_within 1472 (argv ! 2)"
  have rejected: "status (parse_arguments argv) = Exited (- 1) \<and> cerr (parse_arguments argv) \<noteq> []
      \<and> cout (parse_arguments argv) = [] \<and> events (parse_arguments argv) = []"
    if "?bad1 \<or> ?bad2"
  proof (cases ?bad1)
    case True
    then show ?thesis using parse_arguments_first_rejected [of argv] by simp
  next
    case False
    with that have b2: ?bad2 by blast
    then have "parses_fully_within 4 (argv ! 1)" using False by auto
    then show ?thesis using parse_arguments_second_rejected [of argv] b2 by simp
  qed
  have exits: "status (main env argv) = Exited (- 1) \<and> cerr (main env argv) \<noteq> []
      \<and> cout (main env argv) = [] \<and> events (main env argv) = []"
    if "?bad1 \<or> ?bad2"
    using rejected [OF that] main_after_exit [of argv env] by simp
  have proceeds: "status (parse_arguments argv) = Running \<longleftrightarrow> \<not> (?bad1 \<or> ?bad2)"
  proof (cases "?bad1 \<or> ?bad2")
    case True
    then show ?thesis using rejected by simp
  next
    case False
    then show ?thesis using parse_arguments_accepted(1) [of argv] by blast
  qed
  show ?thesis using exits proceeds by blast
qed

theorem invalid_arguments_exit_witness:
  "status (main sample_environment [''ipu_example'', ''4x'']) = Exited (- 1)
   \<and> cerr (main sample_environment [''ipu_example'', ''4x'']) \<noteq> []
   \<and> events (main sample_environment [''ipu_example'', ''4x'']) = []
   \<and> status (main sample_environment [''ipu_example'', ''2'', ''0'']) = Exited (- 1)
   \<and> status (parse_arguments [''ipu_example'', ''4'', ''1472'']) = Running"
proof -
  have bad: "\<not> parses_fully_within 4 ''4x''" "\<not> parses_fully_within 1472 ''0''"
    by (simp_all add: parses_fully_within_def stoi_def isspace_def isdigit_def digits_value_def)
  have good: "parses_fully_within 4 ''4''" "parses_fully_within 4 ''2''"
    "parses_fully_within 1472 ''1472''"
    by (simp_all add: parses_fully_within_def stoi_def isspace_def isdigit_def digits_value_def)
  show ?thesis
    using invalid_arguments_exit [of "[''ipu_example'', ''4x'']" sample_environment]
      invalid_arguments_exit [of "[''ipu_example'', ''2'', ''0'']" sample_environment]
      invalid_arguments_exit [of "[''ipu_example'', ''4'', ''1472'']" sample_environment]
      bad good
    by simp
qed

section \<open>Statements in sequence\<close>

lemma run_statements_Nil: "run_statements [] st = st"
  by (simp add: run_statements_def)

lemma run_statements_Cons: "run_statements (f # fs) st = run_statements fs (step f st)"
  by (simp add: run_statements_def)

lemma run_statements_append:
  "run_statements (fs @ gs) st = run_statements gs (run_statements fs st)"
  by (simp add: run_statements_def)

lemma run_statements_related:
  assumes refl: "\<And>s. R s s"
    and trans: "\<And>a b c. R a b \<Longrightarrow> R b c \<Longrightarrow> R a c"
    and each: "\<And>f s. f \<in> set fs \<Longrightarrow> status s = Running \<Longrightarrow> R s (f s)"
  shows "R st (run_statements fs st)"
  using each
proof (induction fs arbitrary: st)
  case Nil
  show ?case by (simp add: run_statements_Nil refl)
next
  case (Cons f fs)
  have first: "R st (step f st)"
    using Cons.prems [of f st] by (simp add: step_def refl)
  have rest: "R (step f st) (run_statements fs (step f st))"
    using Cons.IH Cons.prems by simp
  show ?case
    unfolding run_statements_Cons using trans [OF first rest] .
qed

lemmas statement_defs = print_def print_err_def exit_with_def terminate_def log_event_def
  now_def timeIt_def record_start_def print_took_def sdk_def engine_construct_def
  engine_load_def connectStream_def engine_run_def validate_def return_from_main_def

lemma main_unfold:
  "main env argv =
     run_statements (set_up env @ compile_load_run env @ check_output) (parse_arguments argv)"
  by (simp add: main_def before_validation_def after_set_up_def run_statements_append)

lemma set_up_keeps_tiles:
  assumes "f \<in> set (set_up env)"
  shows "num_tiles_per_ipu (f s) = num_tiles_per_ipu s"
    and "num_ipus s = 1 \<longrightarrow> num_ipus (f s) = 1"
  using assms
  by (auto simp add: set_up_def acquire_device_def build_graph_def create_buffers_def
      statement_defs Let_def split: sum.splits)

lemma run_part_keeps_counts:
  assumes "f \<in> set (compile_load_run env @ check_output)"
  shows "num_ipus (f s) = num_ipus s" and "num_tiles_per_ipu (f s) = num_tiles_per_ipu s"
    and "device (f s) = device s" and "num_workers (f s) = num_workers s"
  using assms
  by (auto simp add: compile_load_run_def check_output_def statement_defs Let_def
      split: option.splits)

lemma main_keeps_tiles:
  "num_tiles_per_ipu (main env argv) = num_tiles_per_ipu (parse_arguments argv)"
proof -
  let ?R = "\<lambda>s s'. num_tiles_per_ipu s' = num_tiles_per_ipu s"
  have "?R (parse_arguments argv)
      (run_statements (set_up env @ compile_load_run env @ check_output) (parse_arguments argv))"
  proof (rule run_statements_related [where R = ?R])
    fix f s
    assume "f \<in> set (set_up env @ compile_load_run env @ check_output)"
    then have "f \<in> set (set_up env) \<or> f \<in> set (compile_load_run env @ check_output)"
      by auto
    then show "num_tiles_per_ipu (f s) = num_tiles_per_ipu s"
      using set_up_keeps_tiles(1) run_part_keeps_counts(2) by blast
  qed simp_all
  then show ?thesis by (simp add: main_unfold)
qed

lemma main_keeps_one_ipu:
  "num_ipus (parse_arguments argv) = 1 \<Longrightarrow> num_ipus (main env argv) = 1"
proof -
  let ?R = "\<lambda>s s'. num_ipus s = 1 \<longrightarrow> num_ipus s' = 1"
  have "?R (parse_arguments argv)
      (run_statements (set_up env @ compile_load_run env @ check_output) (parse_arguments argv))"
  proof (rule run_statements_related [where R = ?R])
    fix f s
    assume "f \<in> set (set_up env @ compile_load_run env @ check_output)"
    then have "f \<in> set (set_up env) \<or> f \<in> set (compile_load_run env @ check_output)"
      by auto
    then show "num_ipus s = 1 \<longrightarrow> num_ipus (f s) = 1"
      using set_up_keeps_tiles(2) [of f env s] run_part_keeps_counts(1) [of f env s] by auto
  qed simp_all
  then show "num_ipus (parse_arguments argv) = 1 \<Longrightarrow> num_ipus (main env argv) = 1"
    by (simp add: main_unfold)
qed

lemma parse_arguments_rest:
  "cout (parse_arguments argv) = []" "events (parse_arguments argv) = []"
  "clock_reads (parse_arguments argv) = 0" "streams (parse_arguments argv) = []"
  by (simp_all add: parse_arguments_def step_def parse_num_ipus_def parse_num_tiles_def Let_def
      initial_state_def exit_with_def print_err_def split: stoi_result.splits)

lemma step_Running:
  "status (step f s) = Running \<Longrightarrow> status s = Running \<and> status (f s) = Running"
  by (cases "status s = Running") (simp_all add: step_def)

lemma set_up_result:
  assumes "status (run_statements (set_up env) p) = Running"
  shows "status p = Running"
    and "num_tiles_per_ipu (run_statements (set_up env) p) = num_tiles_per_ipu p"
    and "num_workers (run_statements (set_up env) p)
          = getNumWorkerContexts (device (run_statements (set_up env) p))"
    and "num_tiles (run_statements (set_up env) p)
          = num_ipus (run_statements (set_up env) p) * num_tiles_per_ipu p"
    and "num_workers_total (run_statements (set_up env) p)
          = num_ipus (run_statements (set_up env) p) * num_tiles_per_ipu p
            * num_workers (run_statements (set_up env) p)"
    and "graph (run_statements (set_up env) p)
          = built_graph (num_workers_total (run_statements (set_up env) p))
              (num_workers (run_statements (set_up env) p))"
    and "programs (run_statements (set_up env) p)
          = [copy_input, add_sequence, Execute computeSet1, Execute computeSet2, copy_output]"
    and "buffer_in (run_statements (set_up env) p)
          = replicate (unat (num_workers_total (run_statements (set_up env) p))) 0"
    and "buffer_out (run_statements (set_up env) p)
          = replicate (unat (num_workers_total (run_statements (set_up env) p))) 0"
    and "streams (run_statements (set_up env) p) = streams p"
    and "clock_reads (run_statements (set_up env) p) = clock_reads p"
    and "cerr (run_statements (set_up env) p) = cerr p"
proof -
  show p: "status p = Running"
    using assms run_statements_halted [of p "set_up env"] by metis
  have unfold: "run_statements (set_up env) p
      = step create_buffers (step (build_graph env) (acquire_device env p))"
    using p by (simp add: set_up_def run_statements_Cons run_statements_Nil step_def)
  define a where "a = acquire_device env p"
  define b where "b = build_graph env a"
  have "status (step create_buffers (step (build_graph env) a)) = Running"
    using assms unfolding unfold a_def .
  then have "status (step (build_graph env) a) = Running"
    using step_Running by blast
  then have a: "status a = Running" and b: "status b = Running"
    unfolding b_def using step_Running by blast+
  have final: "run_statements (set_up env) p = create_buffers b"
    unfolding unfold a_def [symmetric] using a b by (simp add: step_def b_def)
  have a_fields: "num_tiles_per_ipu a = num_tiles_per_ipu p" "streams a = streams p"
      "clock_reads a = clock_reads p" "cerr a = cerr p"
    unfolding a_def
    by (simp_all add: acquire_device_def statement_defs Let_def split: sum.splits)
  have no_throw: "\<not> throws env BuildGraph"
    using b unfolding b_def by (auto simp add: build_graph_def Let_def terminate_def)
  then have b_eq: "b = log_event (Sdk BuildGraph)
      (a\<lparr>num_workers := getNumWorkerContexts (device a),
         num_tiles := num_ipus a * num_tiles_per_ipu a,
         num_workers_total := num_ipus a * num_tiles_per_ipu a * getNumWorkerContexts (device a),
         graph := built_graph (num_ipus a * num_tiles_per_ipu a * getNumWorkerContexts (device a))
                    (getNumWorkerContexts (device a)),
         programs := [copy_input, add_sequence, Execute computeSet1, Execute computeSet2,
                      copy_output]\<rparr>)"
    unfolding b_def by (simp add: build_graph_def Let_def built_graph_def)
  show "num_tiles_per_ipu (run_statements (set_up env) p) = num_tiles_per_ipu p"
    and "num_workers (run_statements (set_up env) p)
          = getNumWorkerContexts (device (run_statements (set_up env) p))"
    and "num_tiles (run_statements (set_up env) p)
          = num_ipus (run_statements (set_up env) p) * num_tiles_per_ipu p"
    and "num_workers_total (run_statements (set_up env) p)
          = num_ipus (run_statements (set_up env) p) * num_tiles_per_ipu p
            * num_workers (run_statements (set_up env) p)"
    and "graph (run_statements (set_up env) p)
          = built_graph (num_workers_total (run_statements (set_up env) p))
              (num_workers (run_statements (set_up env) p))"
    and "programs (run_statements (set_up env) p)
          = [copy_input, add_sequence, Execute computeSet1, Execute computeSet2, copy_output]"
    and "buffer_in (run_statements (set_up env) p)
          = replicate (unat (num_workers_total (run_statements (set_up env) p))) 0"
    and "buffer_out (run_statements (set_up env) p)
          = replicate (unat (num_workers_total (run_statements (set_up env) p))) 0"
    and "streams (run_statements (set_up env) p) = streams p"
    and "clock_reads (run_statements (set_up env) p) = clock_reads p"
    and "cerr (run_statements (set_up env) p) = cerr p"
    unfolding final b_eq using a_fields
    by (simp_all add: create_buffers_def log_event_def)
qed

section \<open>Properties of the defaults\<close>

text \<open>
  C10: with no command-line argument the program keeps the defaults, one IPU and two
  tiles per IPU, after parsing and to the end of the run. With a single argument the
  number of tiles per IPU stays at its default of two, and an accepted argument becomes
  the number of IPUs.
\<close>

theorem default_arguments:
  "(length argv \<le> 1 \<longrightarrow>
      status (parse_arguments argv) = Running
      \<and> num_ipus (parse_arguments argv) = 1 \<and> num_tiles_per_ipu (parse_arguments argv) = 2
      \<and> num_ipus (main env argv) = 1 \<and> num_tiles_per_ipu (main env argv) = 2)
   \<and> (length argv = 2 \<longrightarrow>
        num_tiles_per_ipu (parse_arguments argv) = 2 \<and> num_tiles_per_ipu (main env argv) = 2
        \<and> (\<forall>v. stoi (argv ! 1) = Stoi_value v (length (argv ! 1)) \<and> 1 \<le> v \<and> v \<le> 4
              \<longrightarrow> status (parse_arguments argv) = Running
                  \<and> uint (num_ipus (parse_arguments argv)) = v))"
proof -
  have none: "parse_arguments argv = initial_state" if "length argv \<le> 1"
    using that by (simp add: parse_arguments_def parse_num_ipus_def parse_num_tiles_def step_def)
  have no_args: "status (parse_arguments argv) = Running
      \<and> num_ipus (parse_arguments argv) = 1 \<and> num_tiles_per_ipu (parse_arguments argv) = 2
      \<and> num_ipus (main env argv) = 1 \<and> num_tiles_per_ipu (main env argv) = 2"
    if "length argv \<le> 1"
    using none [OF that] main_keeps_tiles [of env argv] main_keeps_one_ipu [of argv env]
    by (simp add: initial_state_def)
  have tiles: "num_tiles_per_ipu (parse_arguments argv) = 2" if "length argv = 2"
  proof -
    have "num_tiles_per_ipu (parse_num_ipus argv initial_state) = 2"
      by (simp add: parse_num_ipus_def Let_def initial_state_def exit_with_def print_err_def
          split: stoi_result.splits)
    then show ?thesis
      using that
      by (simp add: parse_arguments_def parse_num_tiles_def step_def initial_state_fields)
  qed
  have ipus: "status (parse_arguments argv) = Running \<and> uint (num_ipus (parse_arguments argv)) = v"
    if "length argv = 2" and v: "stoi (argv ! 1) = Stoi_value v (length (argv ! 1))" "1 \<le> v" "v \<le> 4"
    for v
  proof -
    have w: "\<not> ((word_of_int v :: unsigned) < 1 \<or> word_of_int v > (4 :: unsigned))"
      using unsigned_of_int_range [of v 4] v by simp
    have "parse_num_ipus argv initial_state = initial_state\<lparr>num_ipus := word_of_int v\<rparr>"
      using that(1) v(1) w by (simp add: parse_num_ipus_def Let_def)
    then have "parse_arguments argv = initial_state\<lparr>num_ipus := word_of_int v\<rparr>"
      using that(1) by (simp add: parse_arguments_def parse_num_tiles_def step_def initial_state_def)
    moreover have "uint (word_of_int v :: unsigned) = v"
      using v by (simp add: uint_word_of_int)
    ultimately show ?thesis by (simp add: initial_state_def)
  qed
  show ?thesis
    using no_args tiles ipus main_keeps_tiles [of env argv] by auto
qed

theorem default_arguments_witness:
  "num_ipus (main sample_environment [''ipu_example'']) = 1
   \<and> num_tiles_per_ipu (main sample_environment [''ipu_example'']) = 2
   \<and> num_tiles_per_ipu (main sample_environment [''ipu_example'', ''3'']) = 2
   \<and> uint (num_ipus (parse_arguments [''ipu_example'', ''3''])) = 3"
proof -
  have "stoi ''3'' = Stoi_value 3 (length ''3'')"
    by (simp add: stoi_def isspace_def isdigit_def digits_value_def)
  then show ?thesis
    using default_arguments [of "[''ipu_example'']" sample_environment]
      default_arguments [of "[''ipu_example'', ''3'']" sample_environment]
    by simp
qed

section \<open>Properties of the vertices\<close>

lemma tiles_of_set:
  "map vtx_tile (filter (\<lambda>v. vtx_set v = cs) (concat (map (loop_body nw) xs)))
     = map (\<lambda>i. i div unat nw) xs"
proof (induction xs)
  case Nil
  show ?case by simp
next
  case (Cons i xs)
  have "map vtx_tile (filter (\<lambda>v. vtx_set v = cs) (loop_body nw i)) = [i div unat nw]"
    by (cases cs) (simp_all add: loop_body_def Let_def)
  with Cons show ?case by simp
qed

lemma count_on_tile:
  "length (filter (\<lambda>v. vtx_set v = cs \<and> vtx_tile v = t) (concat (map (loop_body nw) xs)))
     = length (filter (\<lambda>i. i div unat nw = t) xs)"
proof (induction xs)
  case Nil
  show ?case by simp
next
  case (Cons i xs)
  have "length (filter (\<lambda>v. vtx_set v = cs \<and> vtx_tile v = t) (loop_body nw i))
      = (if i div unat nw = t then 1 else 0)"
    by (cases cs) (simp_all add: loop_body_def Let_def)
  with Cons show ?case by simp
qed

lemma indices_on_tile:
  assumes "0 < w"
  shows "length (filter (\<lambda>i. i div w = t) [0..<n * w]) = (if t < n then w else 0)"
proof (induction n)
  case 0
  show ?case by simp
next
  case (Suc n)
  have split: "[0..<Suc n * w] = [0..<n * w] @ [n * w..<n * w + w]"
    using upt_add_eq_append [of 0 "n * w" w] by (simp add: add.commute)
  have last_row: "i div w = n" if "i \<in> set [n * w..<n * w + w]" for i
  proof -
    from that have "w * n \<le> i" "i < w * Suc n" by (simp_all add: mult.commute)
    then show ?thesis by (rule div_nat_eqI)
  qed
  have "filter (\<lambda>i. i div w = t) [n * w..<n * w + w] = (if t = n then [n * w..<n * w + w] else [])"
  proof (cases "t = n")
    case True
    then have "filter (\<lambda>i. i div w = t) [n * w..<n * w + w] = [n * w..<n * w + w]"
      using last_row by (intro filter_True) simp
    with True show ?thesis by simp
  next
    case False
    then have "filter (\<lambda>i. i div w = t) [n * w..<n * w + w] = []"
      using last_row by (intro filter_False) simp
    with False show ?thesis by simp
  qed
  then have "length (filter (\<lambda>i. i div w = t) [n * w..<n * w + w]) = (if t = n then w else 0)"
    by simp
  then show ?case
    unfolding split using Suc by auto
qed

lemma vertices_on_tile:
  assumes fits: "unat ni * unat ntpi * unat nw < 2 ^ 32" and tile: "t < unat ni * unat ntpi"
  shows "length (filter (\<lambda>v. vtx_set v = cs \<and> vtx_tile v = t) (add_vertices (ni * ntpi * nw) nw))
     = unat nw"
proof (cases "unat nw = 0")
  case True
  then have "nw = 0" by (simp add: unat_eq_0)
  then show ?thesis by (simp add: add_vertices_def)
next
  case False
  have "unat ni * unat ntpi \<le> unat ni * unat ntpi * unat nw"
    using False by simp
  then have small: "unat ni * unat ntpi < 2 ^ 32" using fits by linarith
  have "unat (ni * ntpi) = unat ni * unat ntpi"
    using small by (simp add: unat_mult_lem [THEN iffD1])
  then have "unat (ni * ntpi * nw) = unat ni * unat ntpi * unat nw"
    using fits by (simp add: unat_mult_lem [THEN iffD1])
  then show ?thesis
    using indices_on_tile [of "unat nw" t "unat ni * unat ntpi"] False tile
    by (simp add: add_vertices_def count_on_tile)
qed

lemma sample_set_up:
  "status (after_set_up sample_environment [''ipu_example'', ''2'', ''1'']) = Running"
  "num_ipus (after_set_up sample_environment [''ipu_example'', ''2'', ''1'']) = 2"
  "num_tiles_per_ipu (after_set_up sample_environment [''ipu_example'', ''2'', ''1'']) = 1"
  "num_workers (after_set_up sample_environment [''ipu_example'', ''2'', ''1'']) = 6"
  "num_workers_total (after_set_up sample_environment [''ipu_example'', ''2'', ''1'']) = 12"
  by code_simp+

text \<open>
  C7: once the graph is built, each of the three compute sets holds one vertex for every
  vertex index \<open>i\<close> below \<open>num_workers_total\<close>, in the order of the indices, and the
  vertex for index \<open>i\<close> is mapped to tile \<open>i div num_workers\<close>. When the product
  \<open>num_ipus * num_tiles_per_ipu * num_workers\<close> fits an unsigned, every tile below
  \<open>num_ipus * num_tiles_per_ipu\<close> therefore receives exactly \<open>num_workers\<close> vertices of
  each compute set.
\<close>

theorem vertices_mapped_to_tiles:
  "status (after_set_up env argv) = Running \<longrightarrow>
     (let st = after_set_up env argv in
        (\<forall>cs. map vtx_tile (filter (\<lambda>v. vtx_set v = cs) (vertices (graph st)))
                = map (\<lambda>i. i div unat (num_workers st)) [0..<unat (num_workers_total st)])
        \<and> (unat (num_ipus st) * unat (num_tiles_per_ipu st) * unat (num_workers st) < 2 ^ 32 \<longrightarrow>
             (\<forall>cs t. t < unat (num_ipus st) * unat (num_tiles_per_ipu st) \<longrightarrow>
                length (filter (\<lambda>v. vtx_set v = cs \<and> vtx_tile v = t) (vertices (graph st)))
                  = unat (num_workers st))))"
proof
  assume running: "status (after_set_up env argv) = Running"
  define st where "st = after_set_up env argv"
  note facts = set_up_result [OF running [unfolded after_set_up_def], folded after_set_up_def st_def]
  have total: "num_workers_total st = num_ipus st * num_tiles_per_ipu st * num_workers st"
    using facts(2) facts(5) by simp
  have vs: "vertices (graph st) = add_vertices (num_workers_total st) (num_workers st)"
    using facts(6) by (simp add: built_graph_def)
  have in_order: "map vtx_tile (filter (\<lambda>v. vtx_set v = cs) (vertices (graph st)))
      = map (\<lambda>i. i div unat (num_workers st)) [0..<unat (num_workers_total st)]" for cs
    unfolding vs add_vertices_def by (rule tiles_of_set)
  have per_tile: "length (filter (\<lambda>v. vtx_set v = cs \<and> vtx_tile v = t) (vertices (graph st)))
      = unat (num_workers st)"
    if "unat (num_ipus st) * unat (num_tiles_per_ipu st) * unat (num_workers st) < 2 ^ 32"
      and "t < unat (num_ipus st) * unat (num_tiles_per_ipu st)" for cs t
    unfolding vs total using that by (rule vertices_on_tile)
  show "let st = after_set_up env argv in
        (\<forall>cs. map vtx_tile (filter (\<lambda>v. vtx_set v = cs) (vertices (graph st)))
                = map (\<lambda>i. i div unat (num_workers st)) [0..<unat (num_workers_total st)])
        \<and> (unat (num_ipus st) * unat (num_tiles_per_ipu st) * unat (num_workers st) < 2 ^ 32 \<longrightarrow>
             (\<forall>cs t. t < unat (num_ipus st) * unat (num_tiles_per_ipu st) \<longrightarrow>
                length (filter (\<lambda>v. vtx_set v = cs \<and> vtx_tile v = t) (vertices (graph st)))
                  = unat (num_workers st)))"
    unfolding Let_def st_def [symmetric] using in_order per_tile by blast
qed

theorem vertices_mapped_to_tiles_witness:
  "map vtx_tile (filter (\<lambda>v. vtx_set v = computeSet1)
       (vertices (graph (after_set_up sample_environment [''ipu_example'', ''2'', ''1'']))))
     = [0, 0, 0, 0, 0, 0, 1, 1, 1, 1, 1, 1]
   \<and> length (filter (\<lambda>v. vtx_set v = computeSet2 \<and> vtx_tile v = 1)
       (vertices (graph (after_set_up sample_environment [''ipu_example'', ''2'', ''1''])))) = 6"
proof -
  have idx: "map (\<lambda>i. i div 6) [0..<12] = [0, 0, 0, 0, 0, 0, 1, 1, 1, 1, 1, 1 :: nat]"
    by code_simp
  show ?thesis
    using vertices_mapped_to_tiles [of sample_environment "[''ipu_example'', ''2'', ''1'']"]
    by (simp add: sample_set_up Let_def idx)
qed

section \<open>Properties of the sizes\<close>

lemma repeat_related:
  assumes refl: "\<And>m. R m m"
    and trans: "\<And>a b c. R a b \<Longrightarrow> R b c \<Longrightarrow> R a c"
    and each: "\<And>m m'. f m = Some m' \<Longrightarrow> R m m'"
  shows "repeat n f m = Some m' \<Longrightarrow> R m m'"
proof (induction n arbitrary: m)
  case 0
  then show ?case by (simp add: refl)
next
  case (Suc n)
  then obtain m1 where m1: "f m = Some m1" "repeat n f m1 = Some m'"
    by (auto split: option.splits)
  show ?case using trans [OF each [OF m1(1)] Suc.IH [OF m1(2)]] .
qed

lemma in_order_related:
  assumes refl: "\<And>m. R m m"
    and trans: "\<And>a b c. R a b \<Longrightarrow> R b c \<Longrightarrow> R a c"
  shows "in_order fs m = Some m' \<Longrightarrow> (\<And>f m m'. f \<in> set fs \<Longrightarrow> f m = Some m' \<Longrightarrow> R m m')
    \<Longrightarrow> R m m'"
proof (induction fs arbitrary: m)
  case Nil
  then show ?case by (simp add: refl)
next
  case (Cons f fs)
  from Cons.prems(1) obtain m1 where m1: "f m = Some m1" "in_order fs m1 = Some m'"
    by (auto split: option.splits)
  have "R m m1" using Cons.prems(2) [of f m m1] m1(1) by simp
  moreover have "R m1 m'"
  proof (rule Cons.IH [OF m1(2)])
    fix h a a'
    assume "h \<in> set fs" "h a = Some a'"
    then show "R a a'" using Cons.prems(2) [of h a a'] by simp
  qed
  ultimately show ?case by (rule trans)
qed

lemma copy_host_lengths:
  "copy g conn src dst m = Some m' \<Longrightarrow> length (snd m' b) = length (snd m b)"
  by (auto simp add: copy_def split: endpoint.splits option.splits if_splits prod.splits)

lemma exec_host_lengths:
  "exec g conn p m = Some m' \<Longrightarrow> length (snd m' b) = length (snd m b)"
proof (induction p arbitrary: m m')
  case (Copy src dst)
  then show ?case by (simp add: copy_host_lengths)
next
  case (Execute cs)
  then show ?case by (auto split: option.splits)
next
  case (Repeat n p)
  from Repeat.prems have "repeat n (exec g conn p) m = Some m'" by simp
  then show ?case
    by (rule repeat_related [where R = "\<lambda>m m'. length (snd m' b) = length (snd m b)", rotated -1])
      (simp_all add: Repeat.IH)
next
  case (Sequence ps)
  from Sequence.prems have run: "in_order (map (exec g conn) ps) m = Some m'" by simp
  show ?case
  proof (rule in_order_related [where R = "\<lambda>m m'. length (snd m' b) = length (snd m b)", OF _ _ run])
    fix f a a'
    assume "f \<in> set (map (exec g conn) ps)" "f a = Some a'"
    then obtain x where "x \<in> set ps" "exec g conn x a = Some a'" by auto
    then show "length (snd a' b) = length (snd a b)" by (rule Sequence.IH)
  qed simp_all
qed

lemma host_of_log_event: "host_of (log_event e s) = host_of s"
  by (rule ext) (simp add: host_of_def log_event_def split: host_buffer.splits)

lemma engine_run_keeps_sizes:
  "graph (engine_run env p s) = graph s" "programs (engine_run env p s) = programs s"
  "length (buffer_in (engine_run env p s)) = length (buffer_in s)"
  "length (buffer_out (engine_run env p s)) = length (buffer_out s)"
  "num_workers_total (engine_run env p s) = num_workers_total s"
  "num_tiles (engine_run env p s) = num_tiles s"
proof -
  define s1 where "s1 = log_event (Sdk (EngineRun (Program_index p))) s"
  have s1: "graph s1 = graph s" "programs s1 = programs s" "buffer_in s1 = buffer_in s"
    "buffer_out s1 = buffer_out s" "num_workers_total s1 = num_workers_total s"
    "num_tiles s1 = num_tiles s"
    by (simp_all add: s1_def log_event_def)
  have lens: "length (snd m Buffer_in) = length (buffer_in s1)
      \<and> length (snd m Buffer_out) = length (buffer_out s1)"
    if "exec (graph s1) (streams s1) (programs s1 ! Program_index p) (memory s1, host_of s1) = Some m"
    for m
    using exec_host_lengths [OF that] by (simp add: host_of_def)
  have "graph (engine_run env p s) = graph s \<and> programs (engine_run env p s) = programs s
      \<and> length (buffer_in (engine_run env p s)) = length (buffer_in s)
      \<and> length (buffer_out (engine_run env p s)) = length (buffer_out s)
      \<and> num_workers_total (engine_run env p s) = num_workers_total s
      \<and> num_tiles (engine_run env p s) = num_tiles s"
    unfolding engine_run_def sdk_def s1_def [symmetric]
    using s1 lens by (auto simp add: terminate_def split: option.splits)
  then show "graph (engine_run env p s) = graph s" "programs (engine_run env p s) = programs s"
    "length (buffer_in (engine_run env p s)) = length (buffer_in s)"
    "length (buffer_out (engine_run env p s)) = length (buffer_out s)"
    "num_workers_total (engine_run env p s) = num_workers_total s"
    "num_tiles (engine_run env p s) = num_tiles s"
    by simp_all
qed

lemma run_part_keeps_sizes:
  assumes "f \<in> set (compile_load_run env @ check_output)"
  shows "graph (f s) = graph s" and "programs (f s) = programs s"
    and "length (buffer_in (f s)) = length (buffer_in s)"
    and "length (buffer_out (f s)) = length (buffer_out s)"
    and "num_workers_total (f s) = num_workers_total s"
    and "num_tiles (f s) = num_tiles s"
  using assms
  by (auto simp add: compile_load_run_def check_output_def engine_run_keeps_sizes
      print_def record_start_def print_took_def now_def timeIt_def log_event_def terminate_def
      sdk_def engine_construct_def engine_load_def connectStream_def validate_def
      return_from_main_def Let_def split: option.splits)


lemma run_part_frame:
  assumes "set fs \<subseteq> set (compile_load_run env @ check_output)"
  shows "num_ipus (run_statements fs s) = num_ipus s
    \<and> num_tiles_per_ipu (run_statements fs s) = num_tiles_per_ipu s
    \<and> num_workers (run_statements fs s) = num_workers s
    \<and> num_workers_total (run_statements fs s) = num_workers_total s
    \<and> num_tiles (run_statements fs s) = num_tiles s
    \<and> device (run_statements fs s) = device s
    \<and> graph (run_statements fs s) = graph s
    \<and> programs (run_statements fs s) = programs s
    \<and> length (buffer_in (run_statements fs s)) = length (buffer_in s)
    \<and> length (buffer_out (run_statements fs s)) = length (buffer_out s)"
proof (rule run_statements_related [where R = "\<lambda>s s'. num_ipus s' = num_ipus s
    \<and> num_tiles_per_ipu s' = num_tiles_per_ipu s
    \<and> num_workers s' = num_workers s
    \<and> num_workers_total s' = num_workers_total s
    \<and> num_tiles s' = num_tiles s
    \<and> device s' = device s
    \<and> graph s' = graph s
    \<and> programs s' = programs s
    \<and> length (buffer_in s') = length (buffer_in s)
    \<and> length (buffer_out s') = length (buffer_out s)"])
  fix f a
  assume "f \<in> set fs"
  then have f: "f \<in> set (compile_load_run env @ check_output)" using assms by blast
  show "num_ipus (f a) = num_ipus a
    \<and> num_tiles_per_ipu (f a) = num_tiles_per_ipu a
    \<and> num_workers (f a) = num_workers a
    \<and> num_workers_total (f a) = num_workers_total a
    \<and> num_tiles (f a) = num_tiles a
    \<and> device (f a) = device a
    \<and> graph (f a) = graph a
    \<and> programs (f a) = programs a
    \<and> length (buffer_in (f a)) = length (buffer_in a)
    \<and> length (buffer_out (f a)) = length (buffer_out a)"
    using run_part_keeps_counts [OF f] run_part_keeps_sizes [OF f] by simp
qed simp_all

lemma main_from_set_up:
  "main env argv = run_statements (take (length (compile_load_run env @ check_output))
     (compile_load_run env @ check_output)) (after_set_up env argv)"
  by (simp add: main_def before_validation_def run_statements_append)

text \<open>
  C6: once the graph is built, and at every later point of the run (after any number
  \<open>k\<close> of the statements that follow; all of them give the end of main), the tensor
  \<open>tensor0\<close> has the one dimension \<open>n\<close>, the two FIFOs have \<open>n\<close> elements, and both host
  buffers have \<open>n\<close> elements, where \<open>n\<close> is \<open>num_ipus * num_tiles_per_ipu * num_workers\<close>
  as the program computes it and \<open>num_workers\<close> is the number of worker contexts of the
  device. When the product fits an unsigned, \<open>n\<close> is the number of worker threads.
\<close>

theorem sizes_equal_worker_count:
  "status (after_set_up env argv) = Running \<longrightarrow>
     (let st = run_statements (take k (compile_load_run env @ check_output)) (after_set_up env argv);
          n = unat (num_ipus st * num_tiles_per_ipu st * num_workers st)
      in num_workers st = getNumWorkerContexts (device st)
         \<and> num_workers_total st = num_ipus st * num_tiles_per_ipu st * num_workers st
         \<and> map_of (variables (graph st)) tensor0 = Some [n]
         \<and> fifo_size (graph st) ''input_write'' HostToDevice = Some n
         \<and> fifo_size (graph st) ''output_read'' DeviceToHost = Some n
         \<and> length (buffer_in st) = n
         \<and> length (buffer_out st) = n
         \<and> (unat (num_ipus st) * unat (num_tiles_per_ipu st) * unat (num_workers st) < 2 ^ 32
              \<longrightarrow> n = unat (num_ipus st) * unat (num_tiles_per_ipu st) * unat (num_workers st)))"
proof
  assume running: "status (after_set_up env argv) = Running"
  define s0 where "s0 = after_set_up env argv"
  define st where "st = run_statements (take k (compile_load_run env @ check_output)) s0"
  note built = set_up_result [OF running [unfolded after_set_up_def], folded after_set_up_def s0_def]
  have "set (take k (compile_load_run env @ check_output))
      \<subseteq> set (compile_load_run env @ check_output)"
    by (rule set_take_subset)
  note same = run_part_frame [OF this, of s0, folded st_def]
  have total: "num_workers_total st = num_ipus st * num_tiles_per_ipu st * num_workers st"
    using same built(2) built(5) by simp
  have g: "graph st = built_graph (num_workers_total st) (num_workers st)"
    using same built(6) by simp
  have nw: "num_workers st = getNumWorkerContexts (device st)"
    using same built(3) by simp
  have bufs: "length (buffer_in st) = unat (num_workers_total st)"
    "length (buffer_out st) = unat (num_workers_total st)"
    using same built(8) built(9) by simp_all
  have exact: "unat (num_ipus st * num_tiles_per_ipu st * num_workers st)
      = unat (num_ipus st) * unat (num_tiles_per_ipu st) * unat (num_workers st)"
    if fits: "unat (num_ipus st) * unat (num_tiles_per_ipu st) * unat (num_workers st) < 2 ^ 32"
  proof (cases "unat (num_workers st) = 0")
    case True
    then have "num_workers st = 0" by (simp add: unat_eq_0)
    then show ?thesis by simp
  next
    case False
    then have "unat (num_ipus st) * unat (num_tiles_per_ipu st)
        \<le> unat (num_ipus st) * unat (num_tiles_per_ipu st) * unat (num_workers st)"
      by simp
    then have "unat (num_ipus st) * unat (num_tiles_per_ipu st) < 2 ^ 32"
      using fits by linarith
    then have "unat (num_ipus st * num_tiles_per_ipu st)
        = unat (num_ipus st) * unat (num_tiles_per_ipu st)"
      by (simp add: unat_mult_lem [THEN iffD1])
    then show ?thesis
      using fits by (simp add: unat_mult_lem [THEN iffD1])
  qed
  show "let st = run_statements (take k (compile_load_run env @ check_output)) (after_set_up env argv);
          n = unat (num_ipus st * num_tiles_per_ipu st * num_workers st)
      in num_workers st = getNumWorkerContexts (device st)
         \<and> num_workers_total st = num_ipus st * num_tiles_per_ipu st * num_workers st
         \<and> map_of (variables (graph st)) tensor0 = Some [n]
         \<and> fifo_size (graph st) ''input_write'' HostToDevice = Some n
         \<and> fifo_size (graph st) ''output_read'' DeviceToHost = Some n
         \<and> length (buffer_in st) = n
         \<and> length (buffer_out st) = n
         \<and> (unat (num_ipus st) * unat (num_tiles_per_ipu st) * unat (num_workers st) < 2 ^ 32
              \<longrightarrow> n = unat (num_ipus st) * unat (num_tiles_per_ipu st) * unat (num_workers st))"
    unfolding Let_def s0_def [symmetric] st_def [symmetric]
    using nw total bufs exact by (simp add: g built_graph_def fifo_size_def)
qed

theorem sizes_equal_worker_count_witness:
  "length (buffer_in (main sample_environment [''ipu_example'', ''2'', ''1''])) = 12
   \<and> length (buffer_out (main sample_environment [''ipu_example'', ''2'', ''1''])) = 12
   \<and> map_of (variables (graph (main sample_environment [''ipu_example'', ''2'', ''1'']))) tensor0
       = Some [12]
   \<and> fifo_size (graph (main sample_environment [''ipu_example'', ''2'', ''1'']))
        ''input_write'' HostToDevice = Some 12
   \<and> fifo_size (graph (main sample_environment [''ipu_example'', ''2'', ''1'']))
        ''output_read'' DeviceToHost = Some 12"
proof -
  let ?argv = "[''ipu_example'', ''2'', ''1'']"
  let ?all = "compile_load_run sample_environment @ check_output"
  have "set (take (length ?all) ?all) \<subseteq> set ?all" by simp
  note same = run_part_frame [OF this, of "after_set_up sample_environment ?argv",
      folded main_from_set_up]
  have n: "unat (num_ipus (main sample_environment ?argv)
      * num_tiles_per_ipu (main sample_environment ?argv)
      * num_workers (main sample_environment ?argv)) = 12"
    using same by (simp add: sample_set_up)
  show ?thesis
    using sizes_equal_worker_count [of sample_environment ?argv "length ?all",
        folded main_from_set_up] n
    by (simp add: sample_set_up Let_def)
qed

section \<open>Properties of the fallback\<close>

lemma run_statements_Running:
  "status (run_statements fs s) = Running \<Longrightarrow> status s = Running"
  using run_statements_halted [of s fs] by metis

lemma reached_running:
  "status (run_statements fs s) = Running \<Longrightarrow> f \<in> set fs
     \<Longrightarrow> \<exists>s'. status s' = Running \<and> status (f s') = Running"
proof (induction fs arbitrary: s)
  case Nil
  then show ?case by simp
next
  case (Cons g fs)
  from Cons.prems(1) have rest: "status (run_statements fs (step g s)) = Running"
    by (simp add: run_statements_Cons)
  show ?case
  proof (cases "f = g")
    case True
    have "status (step g s) = Running" using rest by (rule run_statements_Running)
    then have "status s = Running \<and> status (g s) = Running" by (rule step_Running)
    with True show ?thesis by blast
  next
    case False
    with Cons.prems(2) have "f \<in> set fs" by simp
    then show ?thesis using Cons.IH [OF rest] by blast
  qed
qed

lemma sdk_Running: "status (sdk env c g s) = Running \<Longrightarrow> \<not> throws env c"
  by (auto simp add: sdk_def terminate_def)

lemma build_graph_Running: "status (build_graph env s) = Running \<Longrightarrow> \<not> throws env BuildGraph"
  by (auto simp add: build_graph_def Let_def terminate_def)

lemma engine_construct_Running:
  "status (engine_construct env s) = Running \<Longrightarrow> \<not> throws env EngineConstruct"
  unfolding engine_construct_def by (rule sdk_Running)

lemma engine_load_Running:
  "status (engine_load env s) = Running \<Longrightarrow> \<not> throws env EngineLoad"
  unfolding engine_load_def by (rule sdk_Running)

lemma connectStream_Running:
  "status (connectStream env name b s) = Running \<Longrightarrow> \<not> throws env (ConnectStream name)"
  unfolding connectStream_def by (rule sdk_Running)

lemma engine_run_Running:
  "status (engine_run env p s) = Running \<Longrightarrow> \<not> throws env (EngineRun (Program_index p))"
  unfolding engine_run_def by (rule sdk_Running)

lemma no_throw_if_running:
  assumes "status (run_statements fs s) = Running" and "f \<in> set fs"
    and "\<And>s'. status (f s') = Running \<Longrightarrow> \<not> throws env c"
  shows "\<not> throws env c"
  using reached_running [OF assms(1,2)] assms(3) by blast

lemma nothing_thrown_before_validation:
  assumes "status (before_validation env argv) = Running"
  shows "\<not> throws env BuildGraph" "\<not> throws env EngineConstruct" "\<not> throws env EngineLoad"
    "\<not> throws env (ConnectStream ''input_write'')" "\<not> throws env (ConnectStream ''output_read'')"
    "\<not> throws env (EngineRun 0)" "\<not> throws env (EngineRun 1)" "\<not> throws env (EngineRun 2)"
    "\<not> throws env (EngineRun 3)" "\<not> throws env (EngineRun 4)"
proof -
  have run: "status (run_statements (set_up env @ compile_load_run env) (parse_arguments argv))
      = Running"
    using assms by (simp add: before_validation_def after_set_up_def run_statements_append)
  show "\<not> throws env BuildGraph"
    by (rule no_throw_if_running [OF run, of "build_graph env"])
      (simp add: set_up_def, rule build_graph_Running)
  show "\<not> throws env EngineConstruct"
    by (rule no_throw_if_running [OF run, of "engine_construct env"])
      (simp add: compile_load_run_def, rule engine_construct_Running)
  show "\<not> throws env EngineLoad"
    by (rule no_throw_if_running [OF run, of "engine_load env"])
      (simp add: compile_load_run_def, rule engine_load_Running)
  show "\<not> throws env (ConnectStream ''input_write'')"
    by (rule no_throw_if_running [OF run, of "connectStream env ''input_write'' Buffer_in"])
      (simp add: compile_load_run_def, rule connectStream_Running)
  show "\<not> throws env (ConnectStream ''output_read'')"
    by (rule no_throw_if_running [OF run, of "connectStream env ''output_read'' Buffer_out"])
      (simp add: compile_load_run_def, rule connectStream_Running)
  show "\<not> throws env (EngineRun 0)"
    using no_throw_if_running [OF run, of "engine_run env COPY_TO_IPU" env "EngineRun 0"]
      engine_run_Running [of env COPY_TO_IPU]
    by (simp add: compile_load_run_def)
  show "\<not> throws env (EngineRun 1)"
    using no_throw_if_running [OF run, of "engine_run env ADD_SOMETHING" env "EngineRun 1"]
      engine_run_Running [of env ADD_SOMETHING]
    by (simp add: compile_load_run_def)
  show "\<not> throws env (EngineRun 2)"
    using no_throw_if_running [OF run, of "engine_run env MULTIPLY_SOMETHING_NUM_TIMES" env "EngineRun 2"]
      engine_run_Running [of env MULTIPLY_SOMETHING_NUM_TIMES]
    by (simp add: compile_load_run_def)
  show "\<not> throws env (EngineRun 3)"
    using no_throw_if_running [OF run, of "engine_run env SUM_PROG" env "EngineRun 3"]
      engine_run_Running [of env SUM_PROG]
    by (simp add: compile_load_run_def)
  show "\<not> throws env (EngineRun 4)"
    using no_throw_if_running [OF run, of "engine_run env COPY_FROM_IPU" env "EngineRun 4"]
      engine_run_Running [of env COPY_FROM_IPU]
    by (simp add: compile_load_run_def)
qed

lemma throw_stops_before_validation:
  assumes "c \<in> {BuildGraph, EngineConstruct, EngineLoad, ConnectStream ''input_write'',
      ConnectStream ''output_read'', EngineRun 0, EngineRun 1, EngineRun 2, EngineRun 3,
      EngineRun 4}" and "throws env c"
  shows "status (before_validation env argv) \<noteq> Running"
  using nothing_thrown_before_validation [of env argv] assms by auto

lemma only_termination_before_validation:
  assumes "f \<in> set (set_up env @ compile_load_run env)" and "status s = Running"
  shows "running_or_terminated (status (f s))"
  using assms
  by (auto simp add: set_up_def compile_load_run_def acquire_device_def build_graph_def
      create_buffers_def print_def record_start_def print_took_def now_def timeIt_def
      log_event_def terminate_def sdk_def engine_construct_def engine_load_def
      connectStream_def engine_run_def Let_def split: option.splits sum.splits)

lemma before_validation_status:
  assumes "status (parse_arguments argv) = Running"
  shows "running_or_terminated (status (before_validation env argv))"
proof -
  let ?R = "\<lambda>s s'. running_or_terminated (status s) \<longrightarrow> running_or_terminated (status s')"
  have "?R (parse_arguments argv)
      (run_statements (set_up env @ compile_load_run env) (parse_arguments argv))"
    by (rule run_statements_related [where R = ?R])
      (use only_termination_before_validation in blast)+
  then show ?thesis
    using assms by (simp add: before_validation_def after_set_up_def run_statements_append)
qed

lemma uncaught_exception_ends_main:
  assumes "status (parse_arguments argv) = Running"
    and "c \<in> {BuildGraph, EngineConstruct, EngineLoad, ConnectStream ''input_write'',
      ConnectStream ''output_read'', EngineRun 0, EngineRun 1, EngineRun 2, EngineRun 3,
      EngineRun 4}" and "throws env c"
  shows "\<exists>c'. status (main env argv) = Terminated c'"
proof -
  have stopped: "status (before_validation env argv) \<noteq> Running"
    using assms(2,3) by (rule throw_stops_before_validation)
  then have "main env argv = before_validation env argv"
    by (simp add: main_def run_statements_halted)
  then show ?thesis
    using before_validation_status [OF assms(1), of env] stopped
    by (cases "status (before_validation env argv)") simp_all
qed


lemma acquire_device_fallback:
  assumes "setIpuDevice (hw_devices env) (num_ipus p) = Inl e"
  shows "cout (acquire_device env p) = cout p @ fallback_notice (num_ipus p) (num_tiles_per_ipu p)"
    and "num_ipus (acquire_device env p) = 1"
    and "num_tiles_per_ipu (acquire_device env p) = num_tiles_per_ipu p"
    and "status (acquire_device env p)
          = (if throws env CreateModelDevice then Terminated CreateModelDevice else status p)"
    and "device (acquire_device env p)
          = (if throws env CreateModelDevice then device p else model_device env)"
    and "events (acquire_device env p)
          = (if throws env CreateModelDevice then events p else events p @ [Sdk CreateModelDevice])"
  using assms
  by (simp_all add: acquire_device_def Let_def print_def terminate_def log_event_def
      fallback_notice_def)

lemma after_acquire_step:
  assumes "f \<in> set ([build_graph env, create_buffers] @ compile_load_run env @ check_output)"
    and "status s = Running"
  shows "device (f s) = device s \<and> num_ipus (f s) = num_ipus s
    \<and> num_tiles_per_ipu (f s) = num_tiles_per_ipu s
    \<and> prefix (cout s) (cout (f s)) \<and> prefix (events s) (events (f s))
    \<and> \<not> has_exited (status (f s))"
  using assms
  by (auto simp add: compile_load_run_def check_output_def build_graph_def
      create_buffers_def print_def record_start_def print_took_def now_def timeIt_def
      log_event_def terminate_def sdk_def engine_construct_def engine_load_def
      connectStream_def engine_run_def validate_def return_from_main_def Let_def
      split: option.splits if_splits)

lemma after_acquire_frame:
  assumes "set fs \<subseteq> set ([build_graph env, create_buffers] @ compile_load_run env @ check_output)"
  shows "device (run_statements fs s) = device s \<and> num_ipus (run_statements fs s) = num_ipus s
    \<and> num_tiles_per_ipu (run_statements fs s) = num_tiles_per_ipu s
    \<and> prefix (cout s) (cout (run_statements fs s))
    \<and> prefix (events s) (events (run_statements fs s))
    \<and> (has_exited (status (run_statements fs s)) \<longrightarrow> has_exited (status s))"
proof (rule run_statements_related [where R = "\<lambda>s s'. device s' = device s
    \<and> num_ipus s' = num_ipus s \<and> num_tiles_per_ipu s' = num_tiles_per_ipu s
    \<and> prefix (cout s) (cout s') \<and> prefix (events s) (events s')
    \<and> (has_exited (status s') \<longrightarrow> has_exited (status s))"])
  fix f :: "main_state \<Rightarrow> main_state" and a :: main_state
  assume "f \<in> set fs" "status a = Running"
  then show "device (f a) = device a \<and> num_ipus (f a) = num_ipus a
    \<and> num_tiles_per_ipu (f a) = num_tiles_per_ipu a
    \<and> prefix (cout a) (cout (f a)) \<and> prefix (events a) (events (f a))
    \<and> (has_exited (status (f a)) \<longrightarrow> has_exited (status a))"
    using after_acquire_step [of f env a] assms by blast
next
  fix a b c :: main_state
  assume "device b = device a \<and> num_ipus b = num_ipus a
    \<and> num_tiles_per_ipu b = num_tiles_per_ipu a
    \<and> prefix (cout a) (cout b) \<and> prefix (events a) (events b)
    \<and> (has_exited (status b) \<longrightarrow> has_exited (status a))"
    and "device c = device b \<and> num_ipus c = num_ipus b
    \<and> num_tiles_per_ipu c = num_tiles_per_ipu b
    \<and> prefix (cout b) (cout c) \<and> prefix (events b) (events c)
    \<and> (has_exited (status c) \<longrightarrow> has_exited (status b))"
  then show "device c = device a \<and> num_ipus c = num_ipus a
    \<and> num_tiles_per_ipu c = num_tiles_per_ipu a
    \<and> prefix (cout a) (cout c) \<and> prefix (events a) (events c)
    \<and> (has_exited (status c) \<longrightarrow> has_exited (status a))"
    using prefix_order.trans by auto
qed simp

lemma main_after_acquire:
  assumes "status (parse_arguments argv) = Running"
  shows "main env argv
    = run_statements ([build_graph env, create_buffers] @ compile_load_run env @ check_output)
        (acquire_device env (parse_arguments argv))"
  using assms
  by (simp add: main_def before_validation_def after_set_up_def set_up_def
      run_statements_Cons run_statements_Nil run_statements_append step_def)

lemma main_after_build_graph:
  assumes "status (parse_arguments argv) = Running"
    and "status (acquire_device env (parse_arguments argv)) = Running"
  shows "main env argv
    = run_statements ([create_buffers] @ compile_load_run env @ check_output)
        (build_graph env (acquire_device env (parse_arguments argv)))"
  using assms
  by (simp add: main_after_acquire run_statements_Cons step_def)

lemma sample_fallback:
  "status (parse_arguments [''ipu_example'', ''4'', ''3'']) = Running"
  "num_ipus (parse_arguments [''ipu_example'', ''4'', ''3'']) = 4"
  "num_tiles_per_ipu (parse_arguments [''ipu_example'', ''4'', ''3'']) = 3"
  by code_simp+

text \<open>
  C3: when the arguments are accepted and \<open>setIpuDevice\<close> throws, main does not exit. It
  prints the fallback notice (with the requested number of IPUs and the number of tiles
  per IPU), sets \<open>num_ipus\<close> to 1 and keeps \<open>num_tiles_per_ipu\<close>, both to the end of the
  run. Unless creating the IPUModel's device itself throws, which nothing catches, the
  device is the model's from then on, and the run goes on with it: unless building the
  graph throws, the graph is built next, for the model's number of worker contexts.
  No other failure is recovered from: an exception of any SDK call after the device is
  acquired ends the program, and an argument that is not accepted ends it with
  \<open>exit(-1)\<close>.
\<close>

theorem fallback_to_model:
  "(status (parse_arguments argv) = Running
      \<and> setIpuDevice (hw_devices env) (num_ipus (parse_arguments argv)) = Inl e \<longrightarrow>
      (let p = parse_arguments argv; st = main env argv in
         \<not> has_exited (status st)
         \<and> prefix (fallback_notice (num_ipus p) (num_tiles_per_ipu p)) (cout st)
         \<and> num_ipus st = 1
         \<and> num_tiles_per_ipu st = num_tiles_per_ipu p
         \<and> (throws env CreateModelDevice \<longrightarrow> status st = Terminated CreateModelDevice)
         \<and> (\<not> throws env CreateModelDevice \<longrightarrow>
              device st = model_device env \<and> prefix [Sdk CreateModelDevice] (events st))
         \<and> (\<not> throws env CreateModelDevice \<and> \<not> throws env BuildGraph \<longrightarrow>
              prefix [Sdk CreateModelDevice, Sdk BuildGraph] (events st)
              \<and> num_workers st = getNumWorkerContexts (model_device env)
              \<and> num_workers_total st
                  = 1 * num_tiles_per_ipu p * getNumWorkerContexts (model_device env))))
   \<and> (status (parse_arguments argv) = Running
        \<and> c \<in> {BuildGraph, EngineConstruct, EngineLoad, ConnectStream ''input_write'',
               ConnectStream ''output_read'', EngineRun 0, EngineRun 1, EngineRun 2, EngineRun 3,
               EngineRun 4}
        \<and> throws env c \<longrightarrow> (\<exists>c'. status (main env argv) = Terminated c'))
   \<and> (status (parse_arguments argv) \<noteq> Running \<longrightarrow> status (main env argv) = Exited (- 1))"
proof (intro conjI impI)
  assume "status (parse_arguments argv) = Running
      \<and> c \<in> {BuildGraph, EngineConstruct, EngineLoad, ConnectStream ''input_write'',
             ConnectStream ''output_read'', EngineRun 0, EngineRun 1, EngineRun 2, EngineRun 3,
             EngineRun 4}
      \<and> throws env c"
  then show "\<exists>c'. status (main env argv) = Terminated c'"
    using uncaught_exception_ends_main [of argv c env] by blast
next
  assume stopped: "status (parse_arguments argv) \<noteq> Running"
  then have "\<not> ((1 < length argv \<longrightarrow> parses_fully_within 4 (argv ! 1))
      \<and> (2 < length argv \<longrightarrow> parses_fully_within 1472 (argv ! 2)))"
    using parse_arguments_accepted(1) [of argv] by blast
  moreover have "2 < length argv \<longrightarrow> 1 < length argv" by simp
  ultimately have "status (parse_arguments argv) = Exited (- 1)"
    using parse_arguments_first_rejected(1) [of argv] parse_arguments_second_rejected(1) [of argv]
    by blast
  then show "status (main env argv) = Exited (- 1)"
    using main_after_exit [OF stopped, of env] by simp
next
  assume "status (parse_arguments argv) = Running
      \<and> setIpuDevice (hw_devices env) (num_ipus (parse_arguments argv)) = Inl e"
  then have running: "status (parse_arguments argv) = Running"
    and failed: "setIpuDevice (hw_devices env) (num_ipus (parse_arguments argv)) = Inl e"
    by simp_all
  define p where "p = parse_arguments argv"
  define a where "a = acquire_device env p"
  define st where "st = main env argv"
  note acq = acquire_device_fallback [OF failed, folded p_def a_def]
  have st_a: "st = run_statements ([build_graph env, create_buffers] @ compile_load_run env
      @ check_output) a"
    unfolding st_def a_def p_def using running by (rule main_after_acquire)
  note frame = after_acquire_frame [OF subset_refl, of env a, folded st_a]
  have p_fields: "status p = Running" "cout p = []" "events p = []"
    using running by (simp_all add: p_def parse_arguments_rest)
  have no_exit: "\<not> has_exited (status st)"
    using frame acq(4) p_fields by (auto simp add: a_def split: if_splits)
  have notice: "prefix (fallback_notice (num_ipus p) (num_tiles_per_ipu p)) (cout st)"
    using frame acq(1) p_fields by (simp add: a_def)
  have counts: "num_ipus st = 1" "num_tiles_per_ipu st = num_tiles_per_ipu p"
    using frame acq(2,3) by (simp_all add: a_def)
  have thrown: "status st = Terminated CreateModelDevice" if "throws env CreateModelDevice"
  proof -
    have "status a = Terminated CreateModelDevice" using acq(4) that by (simp add: a_def)
    then show ?thesis unfolding st_a by (simp add: run_statements_halted)
  qed
  have model: "device st = model_device env \<and> prefix [Sdk CreateModelDevice] (events st)"
    if "\<not> throws env CreateModelDevice"
    using frame acq(5,6) p_fields that by (simp add: a_def)
  have built: "prefix [Sdk CreateModelDevice, Sdk BuildGraph] (events st)
      \<and> num_workers st = getNumWorkerContexts (model_device env)
      \<and> num_workers_total st = 1 * num_tiles_per_ipu p * getNumWorkerContexts (model_device env)"
    if "\<not> throws env CreateModelDevice" "\<not> throws env BuildGraph"
  proof -
    have a_run: "status a = Running" using acq(4) that(1) p_fields by (simp add: a_def)
    define b where "b = build_graph env a"
    have b: "events b = [Sdk CreateModelDevice, Sdk BuildGraph]"
      "num_workers b = getNumWorkerContexts (model_device env)"
      "num_workers_total b = 1 * num_tiles_per_ipu p * getNumWorkerContexts (model_device env)"
      unfolding b_def using that acq p_fields
      by (simp_all add: build_graph_def Let_def log_event_def a_def)
    have st_b: "st = run_statements ([create_buffers] @ compile_load_run env @ check_output) b"
      unfolding st_def b_def a_def p_def
      using running a_run [unfolded a_def p_def] by (rule main_after_build_graph)
    have "set ([create_buffers] @ compile_load_run env @ check_output)
        \<subseteq> set ([build_graph env, create_buffers] @ compile_load_run env @ check_output)"
      by auto
    note frame_b = after_acquire_frame [OF this, of b, folded st_b]
    have "set ([create_buffers] @ compile_load_run env @ check_output)
        \<subseteq> insert create_buffers (set (compile_load_run env @ check_output))"
      by auto
    have keep: "num_workers st = num_workers b \<and> num_workers_total st = num_workers_total b"
    proof -
      have "st = run_statements (compile_load_run env @ check_output) (step create_buffers b)"
        unfolding st_b by (simp add: run_statements_Cons)
      moreover have "num_workers (step create_buffers b) = num_workers b"
        "num_workers_total (step create_buffers b) = num_workers_total b"
        by (simp_all add: step_def create_buffers_def)
      ultimately show ?thesis
        using run_part_frame [OF subset_refl, of env "step create_buffers b"] by simp
    qed
    show ?thesis using frame_b b keep by simp
  qed
  show "let p = parse_arguments argv; st = main env argv in
         \<not> has_exited (status st)
         \<and> prefix (fallback_notice (num_ipus p) (num_tiles_per_ipu p)) (cout st)
         \<and> num_ipus st = 1
         \<and> num_tiles_per_ipu st = num_tiles_per_ipu p
         \<and> (throws env CreateModelDevice \<longrightarrow> status st = Terminated CreateModelDevice)
         \<and> (\<not> throws env CreateModelDevice \<longrightarrow>
              device st = model_device env \<and> prefix [Sdk CreateModelDevice] (events st))
         \<and> (\<not> throws env CreateModelDevice \<and> \<not> throws env BuildGraph \<longrightarrow>
              prefix [Sdk CreateModelDevice, Sdk BuildGraph] (events st)
              \<and> num_workers st = getNumWorkerContexts (model_device env)
              \<and> num_workers_total st
                  = 1 * num_tiles_per_ipu p * getNumWorkerContexts (model_device env))"
    unfolding Let_def p_def [symmetric] st_def [symmetric]
    using no_exit notice counts thrown model built by blast
qed


theorem fallback_to_model_witness:
  "\<not> has_exited (status (main sample_environment [''ipu_example'', ''4'', ''3'']))
   \<and> prefix (fallback_notice 4 3) (cout (main sample_environment [''ipu_example'', ''4'', ''3'']))
   \<and> num_ipus (main sample_environment [''ipu_example'', ''4'', ''3'']) = 1
   \<and> num_tiles_per_ipu (main sample_environment [''ipu_example'', ''4'', ''3'']) = 3
   \<and> device (main sample_environment [''ipu_example'', ''4'', ''3'']) = dev_model
   \<and> num_workers_total (main sample_environment [''ipu_example'', ''4'', ''3'']) = 18
   \<and> (\<exists>c'. status (main (sample_environment\<lparr>throws := \<lambda>c. c = EngineLoad\<rparr>)
          [''ipu_example'', ''4'', ''3'']) = Terminated c')"
proof -
  let ?argv = "[''ipu_example'', ''4'', ''3'']"
  let ?e = "Runtime_error ''Unable to connect to IPU device!''"
  have failed: "setIpuDevice (hw_devices sample_environment) 4 = Inl ?e"
    by (simp add: setIpuDevice_def sample_environment_def)
  have quiet: "\<not> throws sample_environment CreateModelDevice"
    "\<not> throws sample_environment BuildGraph"
    "model_device sample_environment = dev_model"
    "getNumWorkerContexts dev_model = 6"
    by (simp_all add: sample_environment_def dev_model_def)
  have loud: "throws (sample_environment\<lparr>throws := \<lambda>c. c = EngineLoad\<rparr>) EngineLoad"
    by simp
  show ?thesis
    using fallback_to_model [of ?argv sample_environment ?e BuildGraph]
      fallback_to_model [of ?argv "sample_environment\<lparr>throws := \<lambda>c. c = EngineLoad\<rparr>" ?e EngineLoad]
      failed quiet loud
    by (simp add: sample_fallback Let_def)
qed

section \<open>Properties of the conversion to double\<close>

lemma binary_exponent_bounds:
  assumes "0 < x"
  shows "2 powi binary_exponent x \<le> x" and "x < 2 powi (binary_exponent x + 1)"
proof -
  have "2 powi binary_exponent x \<le> x \<and> x < 2 powi (binary_exponent x + 1)"
  proof (cases "1 \<le> x")
    case True
    define n where "n = \<lfloor>x\<rfloor>"
    have n: "0 < n" "of_int n \<le> x" "x < of_int n + 1"
      using True by (simp_all add: n_def)
    have pos: "1 \<le> bitlen n" using n(1) by (simp add: bitlen_alt_def)
    note b = bitlen_bounds [OF n(1)]
    have "(2 :: real) powi (bitlen n - 1) = of_int (2 ^ nat (bitlen n - 1))"
      using pos by (simp add: power_int_def)
    also have "\<dots> \<le> of_int n" using b by (simp only: of_int_le_iff)
    finally have lower: "2 powi (bitlen n - 1) \<le> x" using n(2) by simp
    have "n + 1 \<le> 2 ^ nat (bitlen n)" using b by simp
    then have "real_of_int (n + 1) \<le> of_int (2 ^ nat (bitlen n))"
      by (simp only: of_int_le_iff)
    also have "\<dots> = 2 powi bitlen n" using pos by (simp add: power_int_def)
    finally have upper: "x < 2 powi bitlen n" using n(3) by simp
    show ?thesis using True lower upper by (simp add: binary_exponent_def n_def)
  next
    case False
    define y where "y = 1 / x"
    define c where "c = \<lceil>y\<rceil> - 1"
    have y: "1 < y" using False assms by (simp add: y_def)
    have c: "0 < c" "of_int c < y" "y \<le> of_int c + 1"
      using y by (simp_all add: c_def less_ceiling_iff) linarith+
    have pos: "1 \<le> bitlen c" using c(1) by (simp add: bitlen_alt_def)
    note b = bitlen_bounds [OF c(1)]
    have "c + 1 \<le> 2 ^ nat (bitlen c)" using b by simp
    then have "real_of_int (c + 1) \<le> of_int (2 ^ nat (bitlen c))"
      by (simp only: of_int_le_iff)
    also have "\<dots> = 2 powi bitlen c" using pos by (simp add: power_int_def)
    finally have "y \<le> 2 powi bitlen c" using c(3) by simp
    then have "1 / 2 powi bitlen c \<le> 1 / y"
      using y by (intro divide_left_mono) simp_all
    then have lower: "2 powi (- bitlen c) \<le> x"
      using assms by (simp add: y_def power_int_minus field_simps)
    have "(2 :: real) powi (bitlen c - 1) = of_int (2 ^ nat (bitlen c - 1))"
      using pos by (simp add: power_int_def)
    also have "\<dots> \<le> of_int c" using b by (simp only: of_int_le_iff)
    finally have "2 powi (bitlen c - 1) < y" using c(2) by simp
    then have "1 / y < 1 / 2 powi (bitlen c - 1)"
      using y by (intro divide_strict_left_mono) simp_all
    moreover have "1 / 2 powi (bitlen c - 1) = (2 :: real) powi (- bitlen c + 1)"
      by (simp add: power_int_minus [symmetric] divide_inverse)
    ultimately have upper: "x < 2 powi (- bitlen c + 1)"
      using assms by (simp add: y_def)
    show ?thesis using False lower upper by (simp add: binary_exponent_def c_def y_def)
  qed
  then show "2 powi binary_exponent x \<le> x" and "x < 2 powi (binary_exponent x + 1)"
    by simp_all
qed

lemma round_to_even_cases:
  "round_to_even y = \<lfloor>y\<rfloor> \<and> y - of_int \<lfloor>y\<rfloor> \<le> 1 / 2
   \<or> round_to_even y = \<lfloor>y\<rfloor> + 1 \<and> 1 / 2 \<le> y - of_int \<lfloor>y\<rfloor>"
  by (simp add: round_to_even_def Let_def)

lemma round_to_even_nearest:
  "\<bar>of_int (round_to_even y) - y\<bar> \<le> \<bar>of_int k - y\<bar>"
proof -
  define f :: real where "f = of_int \<lfloor>y\<rfloor>"
  define m :: real where "m = of_int (round_to_even y)"
  define r :: real where "r = of_int k"
  have f: "f \<le> y" "y < f + 1" by (simp_all add: f_def)
  have "k \<le> \<lfloor>y\<rfloor> \<or> \<lfloor>y\<rfloor> + 1 \<le> k" by linarith
  then have k: "r \<le> f \<or> f + 1 \<le> r"
    unfolding r_def f_def by (metis of_int_1 of_int_add of_int_le_iff)
  have m: "m = f \<and> y - f \<le> 1 / 2 \<or> m = f + 1 \<and> 1 / 2 \<le> y - f"
    using round_to_even_cases [of y] by (auto simp add: m_def f_def)
  have "\<bar>m - y\<bar> \<le> \<bar>r - y\<bar>"
    using f k m by (auto simp add: abs_if)
  then show ?thesis by (simp add: m_def r_def)
qed

lemma round_to_even_half: "\<bar>of_int (round_to_even y) - y\<bar> \<le> 1 / 2"
  using round_to_even_cases [of y] by (auto simp add: abs_if) linarith+


lemma scaled_bounds:
  assumes "x \<noteq> 0"
  defines "p \<equiv> 2 powi (binary_exponent \<bar>x\<bar> - 52)"
  shows "0 < p" and "2 ^ 52 * p \<le> \<bar>x\<bar>" and "\<bar>x\<bar> < 2 ^ 53 * p"
    and "to_double x = of_int (round_to_even (x / p)) * p"
proof -
  have pos: "0 < \<bar>x\<bar>" using assms by simp
  note b = binary_exponent_bounds [OF pos]
  have "(2 :: real) powi binary_exponent \<bar>x\<bar> = 2 powi (52 + (binary_exponent \<bar>x\<bar> - 52))"
    by (rule arg_cong [where f = "power_int 2"]) simp
  also have "\<dots> = 2 ^ 52 * p"
    unfolding p_def by (subst power_int_add) simp_all
  finally have lo: "(2 :: real) powi binary_exponent \<bar>x\<bar> = 2 ^ 52 * p" .
  have "(2 :: real) powi (binary_exponent \<bar>x\<bar> + 1)
      = 2 powi (53 + (binary_exponent \<bar>x\<bar> - 52))"
    by (rule arg_cong [where f = "power_int 2"]) simp
  also have "\<dots> = 2 ^ 53 * p"
    unfolding p_def by (subst power_int_add) simp_all
  finally have hi: "(2 :: real) powi (binary_exponent \<bar>x\<bar> + 1) = 2 ^ 53 * p" .
  show "0 < p" by (simp add: p_def)
  show "2 ^ 52 * p \<le> \<bar>x\<bar>" using b(1) lo by simp
  show "\<bar>x\<bar> < 2 ^ 53 * p" using b(2) hi by simp
  show "to_double x = of_int (round_to_even (x / p)) * p"
    using assms(1) by (simp add: to_double_def p_def Let_def)
qed

lemma to_double_nearest_multiple:
  assumes "x \<noteq> 0"
  shows "\<bar>to_double x - x\<bar> \<le> \<bar>of_int k * 2 powi (binary_exponent \<bar>x\<bar> - 52) - x\<bar>"
proof -
  define p :: real where "p = 2 powi (binary_exponent \<bar>x\<bar> - 52)"
  note s = scaled_bounds [OF assms, folded p_def]
  have scale: "\<bar>of_int j * p - x\<bar> = \<bar>of_int j - x / p\<bar> * p" for j :: int
  proof -
    have "of_int j * p - x = (of_int j - x / p) * p" using s(1) by (simp add: field_simps)
    then show ?thesis using s(1) by (simp add: abs_mult)
  qed
  have "\<bar>of_int (round_to_even (x / p)) - x / p\<bar> * p \<le> \<bar>of_int k - x / p\<bar> * p"
    using round_to_even_nearest [of "x / p" k] s(1) by (intro mult_right_mono) simp_all
  then show ?thesis
    unfolding s(4) scale p_def [symmetric] .
qed

lemma to_double_error: "\<bar>to_double x - x\<bar> \<le> \<bar>x\<bar> / 2 ^ 53"
proof (cases "x = 0")
  case True
  then show ?thesis by (simp add: to_double_def)
next
  case False
  define p :: real where "p = 2 powi (binary_exponent \<bar>x\<bar> - 52)"
  note s = scaled_bounds [OF False, folded p_def]
  have "of_int (round_to_even (x / p)) * p - x = (of_int (round_to_even (x / p)) - x / p) * p"
    using s(1) by (simp add: field_simps)
  then have "\<bar>to_double x - x\<bar> = \<bar>of_int (round_to_even (x / p)) - x / p\<bar> * p"
    using s(1) by (simp add: s(4) abs_mult)
  also have "\<dots> \<le> 1 / 2 * p"
    using round_to_even_half [of "x / p"] s(1) by (intro mult_right_mono) simp_all
  also have "\<dots> \<le> \<bar>x\<bar> / 2 ^ 53" using s(2) by simp
  finally show ?thesis .
qed

lemma to_double_representable:
  "\<exists>m g. \<bar>m\<bar> < 2 ^ 53 \<and> to_double x = of_int m * 2 powi g"
proof (cases "x = 0")
  case True
  have "\<bar>0 :: int\<bar> < 2 ^ 53 \<and> to_double x = of_int 0 * 2 powi 0"
    using True by (simp add: to_double_def)
  then show ?thesis by blast
next
  case False
  define e where "e = binary_exponent \<bar>x\<bar> - 52"
  define p :: real where "p = 2 powi e"
  define M where "M = round_to_even (x / p)"
  note s = scaled_bounds [OF False, folded e_def, folded p_def, folded M_def]
  have "\<bar>x / p\<bar> < 2 ^ 53" using s(1) s(3) by (simp add: field_simps)
  then have "\<bar>real_of_int M\<bar> < 2 ^ 53 + 1"
    using round_to_even_half [of "x / p", folded M_def] by linarith
  then have "\<bar>real_of_int M\<bar> < real_of_int (2 ^ 53 + 1)" by simp
  then have "\<bar>M\<bar> < 2 ^ 53 + 1"
    by (metis of_int_abs of_int_less_iff)
  then have M: "\<bar>M\<bar> < 2 ^ 53 \<or> M = 2 ^ 53 \<or> M = - (2 ^ 53)" by linarith
  have next_p: "2 powi (e + 1) = 2 * p"
    unfolding p_def by (subst power_int_add) simp_all
  show ?thesis
  proof -
    consider "\<bar>M\<bar> < 2 ^ 53" | "M = 2 ^ 53" | "M = - (2 ^ 53)" using M by blast
    then show ?thesis
    proof cases
      case 1
      then have "\<bar>M\<bar> < 2 ^ 53 \<and> to_double x = of_int M * 2 powi e"
        using s(4) by (simp add: p_def)
      then show ?thesis by blast
    next
      case 2
      have "\<bar>2 ^ 52 :: int\<bar> < 2 ^ 53 \<and> to_double x = of_int (2 ^ 52) * 2 powi (e + 1)"
        using s(4) 2 by (simp add: next_p)
      then show ?thesis by blast
    next
      case 3
      have "\<bar>- (2 ^ 52) :: int\<bar> < 2 ^ 53
          \<and> to_double x = of_int (- (2 ^ 52)) * 2 powi (e + 1)"
        using s(4) 3 by (simp add: next_p)
      then show ?thesis by blast
    qed
  qed
qed

lemma to_double_nearest:
  assumes m: "\<bar>m\<bar> < 2 ^ 53"
  shows "\<bar>to_double x - x\<bar> \<le> \<bar>of_int m * 2 powi g - x\<bar>"
proof (cases "x = 0")
  case True
  then show ?thesis by (simp add: to_double_def)
next
  case False
  define e where "e = binary_exponent \<bar>x\<bar> - 52"
  define p :: real where "p = 2 powi e"
  note s = scaled_bounds [OF False, folded e_def, folded p_def]
  note near = to_double_nearest_multiple [OF False, folded e_def, folded p_def]
  show ?thesis
  proof (cases "e \<le> g")
    case True
    have shift: "(2 :: real) powi (int n + e) = 2 ^ n * p" for n
      unfolding p_def by (subst power_int_add) simp_all
    have "g = int (nat (g - e)) + e" using True by simp
    then have "(2 :: real) powi g = 2 ^ nat (g - e) * p"
      using shift [of "nat (g - e)"] by simp
    then have "of_int m * 2 powi g = of_int (m * 2 ^ nat (g - e)) * p" by simp
    then show ?thesis using near [of "m * 2 ^ nat (g - e)"] by (simp only:)
  next
    case False
    then have "g \<le> e - 1" by simp
    then have "(2 :: real) powi g \<le> 2 powi (e - 1)"
      by (intro power_int_increasing) simp_all
    moreover have "(2 :: real) powi (e - 1) = p / 2"
      unfolding p_def by (subst power_int_diff) simp_all
    ultimately have pg: "(2 :: real) powi g \<le> p / 2" by simp
    have "\<bar>real_of_int m\<bar> \<le> 2 ^ 53"
    proof -
      have "\<bar>m\<bar> \<le> 2 ^ 53" using m by simp
      then have "real_of_int \<bar>m\<bar> \<le> real_of_int (2 ^ 53)" by (simp only: of_int_le_iff)
      then show ?thesis by simp
    qed
    then have "\<bar>real_of_int m\<bar> * 2 powi g \<le> 2 ^ 53 * (p / 2)"
      using pg by (intro mult_mono) simp_all
    then have small: "\<bar>of_int m * 2 powi g\<bar> \<le> 2 ^ 52 * p"
      by (simp add: abs_mult)
    define k :: int where "k = (if 0 < x then 2 ^ 52 else - (2 ^ 52))"
    have "\<bar>of_int k * p - x\<bar> \<le> \<bar>of_int m * 2 powi g - x\<bar>"
      using small s(2) by (auto simp add: k_def abs_if split: if_splits)
    then show ?thesis using near [of k] by simp
  qed
qed

lemma to_double_fixed:
  assumes "\<bar>m\<bar> < 2 ^ 53"
  shows "to_double (of_int m * 2 powi g) = of_int m * 2 powi g"
  using to_double_nearest [OF assms, of "of_int m * 2 powi g" g] by simp

lemma to_double_mono:
  assumes "x \<le> y"
  shows "to_double x \<le> to_double y"
proof (rule ccontr)
  assume "\<not> to_double x \<le> to_double y"
  then have less: "to_double y < to_double x" by simp
  obtain m g where mg: "\<bar>m\<bar> < 2 ^ 53" "to_double x = of_int m * 2 powi g"
    using to_double_representable [of x] by blast
  obtain n h where nh: "\<bar>n\<bar> < 2 ^ 53" "to_double y = of_int n * 2 powi h"
    using to_double_representable [of y] by blast
  have 1: "\<bar>to_double x - x\<bar> \<le> \<bar>to_double y - x\<bar>"
    using to_double_nearest [OF nh(1), of x h] nh(2) by simp
  have 2: "\<bar>to_double y - y\<bar> \<le> \<bar>to_double x - y\<bar>"
    using to_double_nearest [OF mg(1), of y g] mg(2) by simp
  have "x = y" using 1 2 less assms by (auto simp add: abs_if split: if_splits)
  then show False using less by simp
qed

lemma to_double_sign:
  "0 \<le> to_double x \<longleftrightarrow> 0 \<le> x" "to_double x = 0 \<longleftrightarrow> x = 0"
proof -
  have zero: "to_double 0 = 0" by (simp add: to_double_def)
  have e: "\<bar>to_double x - x\<bar> \<le> \<bar>x\<bar> / 2 ^ 53" by (rule to_double_error)
  have strict: "\<bar>to_double x - x\<bar> < \<bar>x\<bar>" if "x \<noteq> 0"
  proof -
    have "\<bar>x\<bar> / 2 ^ 53 < \<bar>x\<bar>" using that by (simp add: field_simps)
    then show ?thesis using e by linarith
  qed
  show "to_double x = 0 \<longleftrightarrow> x = 0" using strict zero by fastforce
  show "0 \<le> to_double x \<longleftrightarrow> 0 \<le> x"
    using strict zero by (cases "x = 0") (auto simp add: abs_if split: if_splits)
qed

text \<open>The two roundings of \<open>timeIt\<close> together.\<close>

lemma to_double_quotient_error:
  "\<bar>to_double (to_double x / 1000000) - x / 1000000\<bar>
   \<le> \<bar>x / 1000000\<bar> * (2 / 2 ^ 53 + 1 / 2 ^ 106)"
proof -
  define a where "a = to_double x"
  define q :: real where "q = x / 1000000"
  have first: "\<bar>a - x\<bar> \<le> \<bar>x\<bar> / 2 ^ 53" unfolding a_def by (rule to_double_error)
  then have first_q: "\<bar>a / 1000000 - q\<bar> \<le> \<bar>q\<bar> / 2 ^ 53"
    by (simp add: q_def abs_if field_simps split: if_splits)
  have "\<bar>a\<bar> \<le> \<bar>x\<bar> + \<bar>x\<bar> / 2 ^ 53" using first by linarith
  then have size: "\<bar>a / 1000000\<bar> \<le> \<bar>q\<bar> + \<bar>q\<bar> / 2 ^ 53"
    by (simp add: q_def abs_if field_simps split: if_splits)
  have "\<bar>to_double (a / 1000000) - a / 1000000\<bar> \<le> \<bar>a / 1000000\<bar> / 2 ^ 53"
    by (rule to_double_error)
  also have "\<dots> \<le> (\<bar>q\<bar> + \<bar>q\<bar> / 2 ^ 53) / 2 ^ 53"
    using size by (intro divide_right_mono) simp_all
  finally have second: "\<bar>to_double (a / 1000000) - a / 1000000\<bar>
      \<le> (\<bar>q\<bar> + \<bar>q\<bar> / 2 ^ 53) / 2 ^ 53" .
  have "\<bar>to_double (a / 1000000) - q\<bar> \<le> \<bar>q\<bar> / 2 ^ 53 + (\<bar>q\<bar> + \<bar>q\<bar> / 2 ^ 53) / 2 ^ 53"
    using first_q second by linarith
  also have "\<dots> = \<bar>q\<bar> * (2 / 2 ^ 53 + 1 / 2 ^ 106)"
    by (simp add: field_simps)
  finally show ?thesis by (simp add: a_def q_def)
qed

lemma to_double_of_int:
  assumes "\<bar>c\<bar> \<le> 2 ^ 53"
  shows "to_double (real_of_int c) = real_of_int c"
proof (cases "\<bar>c\<bar> < 2 ^ 53")
  case True
  then show ?thesis using to_double_fixed [of c 0] by simp
next
  case False
  then have "c = 2 ^ 53 \<or> c = - (2 ^ 53)" using assms by linarith
  then show ?thesis
    using to_double_fixed [of "2 ^ 52" 1] to_double_fixed [of "- (2 ^ 52)" 1] by auto
qed

section \<open>Properties of the order of events\<close>

lemma leaves_events_append:
  assumes "leaves_events fs T1 r1" and "leaves_events gs T2 r2"
  shows "leaves_events (fs @ gs) (\<lambda>k. T1 k @ T2 (k + r1)) (r1 + r2)"
  unfolding leaves_events_def
proof (intro allI impI)
  fix st :: main_state
  assume st: "status st = Running"
  define m where "m = run_statements fs st"
  have first: "prefix (events m) (events st @ T1 (clock_reads st))"
    and first_run: "status m = Running \<Longrightarrow>
      events m = events st @ T1 (clock_reads st) \<and> clock_reads m = clock_reads st + r1"
    using assms(1) st unfolding leaves_events_def m_def by blast+
  show "prefix (events (run_statements (fs @ gs) st))
          (events st @ (T1 (clock_reads st) @ T2 (clock_reads st + r1)))
      \<and> (status (run_statements (fs @ gs) st) = Running \<longrightarrow>
           events (run_statements (fs @ gs) st)
             = events st @ (T1 (clock_reads st) @ T2 (clock_reads st + r1))
           \<and> clock_reads (run_statements (fs @ gs) st) = clock_reads st + (r1 + r2))"
  proof (cases "status m = Running")
    case True
    note m = first_run [OF True]
    have "prefix (events (run_statements gs m)) (events m @ T2 (clock_reads m))"
      and "status (run_statements gs m) = Running \<Longrightarrow>
        events (run_statements gs m) = events m @ T2 (clock_reads m)
        \<and> clock_reads (run_statements gs m) = clock_reads m + r2"
      using assms(2) True unfolding leaves_events_def by blast+
    then show ?thesis
      unfolding run_statements_append m_def [symmetric] using m by (simp add: add.assoc)
  next
    case False
    then have "run_statements gs m = m" by (rule run_statements_halted)
    moreover have "prefix (events m) (events st @ T1 (clock_reads st) @ T2 (clock_reads st + r1))"
      using prefix_prefix [OF first, of "T2 (clock_reads st + r1)"] by simp
    ultimately show ?thesis
      unfolding run_statements_append m_def [symmetric] using False by simp
  qed
qed

lemma leaves_events_same:
  assumes "leaves_events fs T r" and "\<And>k. T k = T' k" and "r = r'" and "fs = fs'"
  shows "leaves_events fs' T' r'"
  using assms by (simp add: leaves_events_def)

lemma leaves_events_print: "leaves_events [print items] (\<lambda>k. []) 0"
  by (simp add: leaves_events_def run_statements_Cons run_statements_Nil step_def print_def)

lemma leaves_events_sdk:
  assumes "\<And>s. events (g s) = events s \<and> clock_reads (g s) = clock_reads s"
  shows "leaves_events [sdk env c g] (\<lambda>k. [Sdk c]) 0"
  using assms
  by (simp add: leaves_events_def run_statements_Cons run_statements_Nil step_def sdk_def
      terminate_def log_event_def)

lemma leaves_events_timed:
  assumes g: "\<And>s. events (g s) = events s \<and> clock_reads (g s) = clock_reads s \<and> start (g s) = start s"
  shows "leaves_events [print items, record_start env, sdk env c g, print_took env]
      (\<lambda>k. timed_phase env k c) 2"
    and "leaves_events [record_start env, print items, sdk env c g, print_took env]
      (\<lambda>k. timed_phase env k c) 2"
  using g
  by (simp_all add: leaves_events_def run_statements_Cons run_statements_Nil step_def sdk_def
      terminate_def log_event_def print_def record_start_def print_took_def now_def timeIt_def
      timed_phase_def)


lemma leaves_events_engine_run:
  "leaves_events [print items, record_start env, engine_run env p, print_took env]
     (\<lambda>k. timed_phase env k (EngineRun (Program_index p))) 2"
  unfolding engine_run_def
  by (rule leaves_events_timed) (simp add: terminate_def split: option.splits)

lemma compile_load_run_events: "leaves_events (compile_load_run env) (run_trace env) 14"
proof -
  have construct: "leaves_events
      [record_start env, print [Str (newline # ''Compiling graph program...'' @ [newline])],
       engine_construct env, print_took env] (\<lambda>k. timed_phase env k EngineConstruct) 2"
    unfolding engine_construct_def by (rule leaves_events_timed) simp
  have load: "leaves_events
      [print [Str (''Loading program on device...'' @ [newline])], record_start env,
       engine_load env, print_took env] (\<lambda>k. timed_phase env k EngineLoad) 2"
    unfolding engine_load_def by (rule leaves_events_timed) simp
  have connect: "leaves_events [connectStream env name b] (\<lambda>k. [Sdk (ConnectStream name)]) 0"
    for name b
    unfolding connectStream_def by (rule leaves_events_sdk) simp
  note all = leaves_events_append [OF construct
      leaves_events_append [OF load
      leaves_events_append [OF connect [of "''input_write''" Buffer_in]
      leaves_events_append [OF connect [of "''output_read''" Buffer_out]
      leaves_events_append [OF leaves_events_engine_run
          [of "[Str (''Copying input data to IPU...'' @ [newline])]" env COPY_TO_IPU]
      leaves_events_append [OF leaves_events_engine_run
          [of "[Str (''Running repeat add program...'' @ [newline])]" env ADD_SOMETHING]
      leaves_events_append [OF leaves_events_engine_run
          [of "[Str (''Running multiply / clone program...'' @ [newline])]" env
            MULTIPLY_SOMETHING_NUM_TIMES]
      leaves_events_append [OF leaves_events_engine_run
          [of "[Str (''Running sum program...'' @ [newline])]" env SUM_PROG]
        leaves_events_engine_run
          [of "[Str (''Copying ouput data from IPU...'' @ [newline])]" env COPY_FROM_IPU]]]]]]]]]
  show ?thesis
    by (rule leaves_events_same [OF all]) (simp_all add: run_trace_def compile_load_run_def eval_nat_numeral)
qed


lemma engine_runs_append: "engine_runs (xs @ ys) = engine_runs xs @ engine_runs ys"
  by (induction xs rule: engine_runs.induct) simp_all

lemma engine_runs_prefix: "prefix xs ys \<Longrightarrow> prefix (engine_runs xs) (engine_runs ys)"
  by (auto simp add: prefix_def engine_runs_append)

lemma engine_runs_run_trace: "engine_runs (run_trace env k) = [0, 1, 2, 3, 4]"
  by (simp add: run_trace_def timed_phase_def)

lemma set_up_engine_runs:
  "engine_runs (events (run_statements (set_up env) p)) = engine_runs (events p)"
proof (rule run_statements_related
    [where R = "\<lambda>s s'. engine_runs (events s') = engine_runs (events s)"])
  fix f :: "main_state \<Rightarrow> main_state" and s :: main_state
  assume "f \<in> set (set_up env)"
  then show "engine_runs (events (f s)) = engine_runs (events s)"
    by (auto simp add: set_up_def acquire_device_def build_graph_def create_buffers_def
        print_def terminate_def log_event_def Let_def engine_runs_append split: sum.splits)
qed simp_all

lemma set_up_events:
  assumes "status (run_statements (set_up env) p) = Running"
  shows "\<exists>d. events (run_statements (set_up env) p) = events p @ [d, Sdk BuildGraph]
    \<and> (d = Sdk CreateModelDevice \<or> (\<exists>n. d = AttachedTo n))"
proof -
  have p: "status p = Running"
    using assms by (rule run_statements_Running)
  have unfold: "run_statements (set_up env) p
      = step create_buffers (step (build_graph env) (acquire_device env p))"
    using p by (simp add: set_up_def run_statements_Cons run_statements_Nil step_def)
  define a where "a = acquire_device env p"
  define b where "b = build_graph env a"
  have "status (step create_buffers (step (build_graph env) a)) = Running"
    using assms unfolding unfold a_def .
  then have "status (step (build_graph env) a) = Running"
    using step_Running by blast
  then have a: "status a = Running" and b: "status b = Running"
    unfolding b_def using step_Running by blast+
  have final: "run_statements (set_up env) p = create_buffers b"
    unfolding unfold a_def [symmetric] using a b by (simp add: step_def b_def)
  have "\<exists>d. events a = events p @ [d] \<and> (d = Sdk CreateModelDevice \<or> (\<exists>n. d = AttachedTo n))"
    using a unfolding a_def
    by (auto simp add: acquire_device_def print_def terminate_def log_event_def Let_def
        split: sum.splits if_splits)
  moreover have "events b = events a @ [Sdk BuildGraph]"
    using b unfolding b_def
    by (auto simp add: build_graph_def terminate_def log_event_def Let_def split: if_splits)
  ultimately show ?thesis
    unfolding final by (auto simp add: create_buffers_def)
qed

lemma check_output_events: "events (run_statements check_output s) = events s"
proof (rule run_statements_related [where R = "\<lambda>s s'. events s' = events s"])
  fix f :: "main_state \<Rightarrow> main_state" and s :: main_state
  assume "f \<in> set check_output"
  then show "events (f s) = events s"
    by (auto simp add: check_output_def print_def validate_def return_from_main_def
        split: option.splits)
qed simp_all

lemma main_events:
  assumes "status (after_set_up env argv) = Running"
  shows "prefix (events (main env argv)) (events (after_set_up env argv) @ run_trace env 0)"
    and "status (before_validation env argv) = Running \<Longrightarrow>
      events (main env argv) = events (after_set_up env argv) @ run_trace env 0"
proof -
  have zero: "clock_reads (after_set_up env argv) = 0"
    using set_up_result(11) [OF assms [unfolded after_set_up_def]]
    by (simp add: after_set_up_def parse_arguments_rest)
  have same: "events (main env argv) = events (before_validation env argv)"
    by (simp add: main_def check_output_events)
  note run = compile_load_run_events [of env, unfolded leaves_events_def, rule_format,
      OF assms, folded before_validation_def, unfolded zero]
  show "prefix (events (main env argv)) (events (after_set_up env argv) @ run_trace env 0)"
    using run same by simp
  show "events (main env argv) = events (after_set_up env argv) @ run_trace env 0"
    if "status (before_validation env argv) = Running"
    using run same that by simp
qed

text \<open>
  C8: \<open>timeIt\<close>, given a start point, takes one reading of the steady clock and returns
  the time from the start point to that reading in milliseconds, as a double. The count
  of nanoseconds is first converted: the result is a double (an integer below \<open>2 ^ 53\<close> in
  magnitude times a power of two), no double is nearer to the count, and a count of
  magnitude at most \<open>2 ^ 53\<close> is converted exactly. The value returned is a double, and
  no double is nearer to the quotient of the converted count by \<open>10 ^ 6\<close>. It differs from
  the exact number of milliseconds by at most the fraction \<open>2 / 2 ^ 53 + 1 / 2 ^ 106\<close> of
  it, and by at most the fraction \<open>1 / 2 ^ 53\<close> when the count was converted exactly; it
  is negative, zero or positive as the count is, and a later reading never gives a
  smaller value for the same start point. The call is recorded after the events so far,
  and the clock has been read once more.

  In a run, after the device is acquired and the graph built, the events are those of
  seven timed phases in order: compiling the graph, loading the program, and the five
  program runs. In each, the start point is taken, the phase follows with no other
  event between, and \<open>timeIt\<close> is called once with that start point right after it. A
  run that an exception ends has a prefix of these events.
\<close>

theorem timing_of_phases:
  "(let count = steady_clock env (clock_reads st) - start_point;
        converted = to_double (real_of_int count);
        ms = fst (timeIt env start_point st)
    in (\<exists>m g. \<bar>m\<bar> < 2 ^ 53 \<and> converted = real_of_int m * 2 powi g)
       \<and> (\<forall>m g. \<bar>m\<bar> < 2 ^ 53 \<longrightarrow>
             \<bar>converted - real_of_int count\<bar> \<le> \<bar>real_of_int m * 2 powi g - real_of_int count\<bar>)
       \<and> (\<bar>count\<bar> \<le> 2 ^ 53 \<longrightarrow> converted = real_of_int count)
       \<and> (\<exists>m g. \<bar>m\<bar> < 2 ^ 53 \<and> ms = real_of_int m * 2 powi g)
       \<and> (\<forall>m g. \<bar>m\<bar> < 2 ^ 53 \<longrightarrow>
             \<bar>ms - converted / 1000000\<bar> \<le> \<bar>real_of_int m * 2 powi g - converted / 1000000\<bar>)
       \<and> \<bar>ms - real_of_int count / 1000000\<bar>
           \<le> \<bar>real_of_int count / 1000000\<bar> * (2 / 2 ^ 53 + 1 / 2 ^ 106)
       \<and> (\<bar>count\<bar> \<le> 2 ^ 53 \<longrightarrow>
             \<bar>ms - real_of_int count / 1000000\<bar> \<le> \<bar>real_of_int count / 1000000\<bar> / 2 ^ 53)
       \<and> (0 \<le> ms \<longleftrightarrow> 0 \<le> count)
       \<and> (ms = 0 \<longleftrightarrow> count = 0)
       \<and> (steady_clock env (clock_reads st) \<le> steady_clock env' (clock_reads st')
            \<longrightarrow> ms \<le> fst (timeIt env' start_point st'))
       \<and> events (snd (timeIt env start_point st))
           = events st @ [Timed start_point (steady_clock env (clock_reads st))])
   \<and> clock_reads (snd (timeIt env start_point st)) = Suc (clock_reads st)
   \<and> (status (after_set_up env argv) = Running \<longrightarrow>
        (\<exists>d. events (after_set_up env argv) = [d, Sdk BuildGraph]
           \<and> (d = Sdk CreateModelDevice \<or> (\<exists>n. d = AttachedTo n)))
        \<and> prefix (events (main env argv)) (events (after_set_up env argv) @ run_trace env 0)
        \<and> (status (before_validation env argv) = Running \<longrightarrow>
             events (main env argv) = events (after_set_up env argv) @ run_trace env 0))"
proof -
  define count where "count = steady_clock env (clock_reads st) - start_point"
  define converted where "converted = to_double (real_of_int count)"
  define ms where "ms = fst (timeIt env start_point st)"
  have ms: "ms = to_double (converted / 1000000)"
    by (simp add: ms_def converted_def count_def timeIt_def now_def)
  have d1: "\<exists>m g. \<bar>m\<bar> < 2 ^ 53 \<and> converted = real_of_int m * 2 powi g"
    unfolding converted_def by (rule to_double_representable)
  have d2: "\<forall>m g. \<bar>m\<bar> < 2 ^ 53 \<longrightarrow>
      \<bar>converted - real_of_int count\<bar> \<le> \<bar>real_of_int m * 2 powi g - real_of_int count\<bar>"
    unfolding converted_def using to_double_nearest by blast
  have d3: "\<bar>count\<bar> \<le> 2 ^ 53 \<longrightarrow> converted = real_of_int count"
    unfolding converted_def using to_double_of_int by blast
  have d4: "\<exists>m g. \<bar>m\<bar> < 2 ^ 53 \<and> ms = real_of_int m * 2 powi g"
    unfolding ms by (rule to_double_representable)
  have d5: "\<forall>m g. \<bar>m\<bar> < 2 ^ 53 \<longrightarrow>
      \<bar>ms - converted / 1000000\<bar> \<le> \<bar>real_of_int m * 2 powi g - converted / 1000000\<bar>"
    unfolding ms using to_double_nearest by blast
  have d6: "\<bar>ms - real_of_int count / 1000000\<bar>
      \<le> \<bar>real_of_int count / 1000000\<bar> * (2 / 2 ^ 53 + 1 / 2 ^ 106)"
    unfolding ms converted_def by (rule to_double_quotient_error)
  have d7: "\<bar>count\<bar> \<le> 2 ^ 53 \<longrightarrow>
      \<bar>ms - real_of_int count / 1000000\<bar> \<le> \<bar>real_of_int count / 1000000\<bar> / 2 ^ 53"
  proof
    assume "\<bar>count\<bar> \<le> 2 ^ 53"
    then have "converted = real_of_int count" using d3 by simp
    then show "\<bar>ms - real_of_int count / 1000000\<bar> \<le> \<bar>real_of_int count / 1000000\<bar> / 2 ^ 53"
      using to_double_error [of "real_of_int count / 1000000"] by (simp add: ms)
  qed
  have d8: "0 \<le> ms \<longleftrightarrow> 0 \<le> count"
    by (simp add: ms converted_def to_double_sign zero_le_divide_iff)
  have d9: "ms = 0 \<longleftrightarrow> count = 0"
    by (simp add: ms converted_def to_double_sign)
  have d10: "steady_clock env (clock_reads st) \<le> steady_clock env' (clock_reads st')
      \<longrightarrow> ms \<le> fst (timeIt env' start_point st')"
  proof
    assume "steady_clock env (clock_reads st) \<le> steady_clock env' (clock_reads st')"
    then have "real_of_int count
        \<le> real_of_int (steady_clock env' (clock_reads st') - start_point)"
      by (simp add: count_def)
    then have "converted / 1000000
        \<le> to_double (real_of_int (steady_clock env' (clock_reads st') - start_point)) / 1000000"
      unfolding converted_def by (intro divide_right_mono to_double_mono) simp_all
    then have "ms \<le> to_double
        (to_double (real_of_int (steady_clock env' (clock_reads st') - start_point)) / 1000000)"
      unfolding ms by (rule to_double_mono)
    then show "ms \<le> fst (timeIt env' start_point st')"
      by (simp add: timeIt_def now_def)
  qed
  have d11: "events (snd (timeIt env start_point st))
      = events st @ [Timed start_point (steady_clock env (clock_reads st))]"
    by (simp add: timeIt_def now_def log_event_def)
  have reads: "clock_reads (snd (timeIt env start_point st)) = Suc (clock_reads st)"
    by (simp add: timeIt_def now_def log_event_def)
  have call: "let count = steady_clock env (clock_reads st) - start_point;
        converted = to_double (real_of_int count);
        ms = fst (timeIt env start_point st)
    in (\<exists>m g. \<bar>m\<bar> < 2 ^ 53 \<and> converted = real_of_int m * 2 powi g)
       \<and> (\<forall>m g. \<bar>m\<bar> < 2 ^ 53 \<longrightarrow>
             \<bar>converted - real_of_int count\<bar> \<le> \<bar>real_of_int m * 2 powi g - real_of_int count\<bar>)
       \<and> (\<bar>count\<bar> \<le> 2 ^ 53 \<longrightarrow> converted = real_of_int count)
       \<and> (\<exists>m g. \<bar>m\<bar> < 2 ^ 53 \<and> ms = real_of_int m * 2 powi g)
       \<and> (\<forall>m g. \<bar>m\<bar> < 2 ^ 53 \<longrightarrow>
             \<bar>ms - converted / 1000000\<bar> \<le> \<bar>real_of_int m * 2 powi g - converted / 1000000\<bar>)
       \<and> \<bar>ms - real_of_int count / 1000000\<bar>
           \<le> \<bar>real_of_int count / 1000000\<bar> * (2 / 2 ^ 53 + 1 / 2 ^ 106)
       \<and> (\<bar>count\<bar> \<le> 2 ^ 53 \<longrightarrow>
             \<bar>ms - real_of_int count / 1000000\<bar> \<le> \<bar>real_of_int count / 1000000\<bar> / 2 ^ 53)
       \<and> (0 \<le> ms \<longleftrightarrow> 0 \<le> count)
       \<and> (ms = 0 \<longleftrightarrow> count = 0)
       \<and> (steady_clock env (clock_reads st) \<le> steady_clock env' (clock_reads st')
            \<longrightarrow> ms \<le> fst (timeIt env' start_point st'))
       \<and> events (snd (timeIt env start_point st))
           = events st @ [Timed start_point (steady_clock env (clock_reads st))]"
    unfolding Let_def count_def [symmetric] converted_def [symmetric] ms_def [symmetric]
    using d1 d2 d3 d4 d5 d6 d7 d8 d9 d10 d11 by (intro conjI)
  have set_up: "\<exists>d. events (after_set_up env argv) = [d, Sdk BuildGraph]
      \<and> (d = Sdk CreateModelDevice \<or> (\<exists>n. d = AttachedTo n))"
    if "status (after_set_up env argv) = Running"
    using set_up_events [OF that [unfolded after_set_up_def]]
    by (simp add: after_set_up_def parse_arguments_rest)
  have runs: "status (after_set_up env argv) = Running \<longrightarrow>
        (\<exists>d. events (after_set_up env argv) = [d, Sdk BuildGraph]
           \<and> (d = Sdk CreateModelDevice \<or> (\<exists>n. d = AttachedTo n)))
        \<and> prefix (events (main env argv)) (events (after_set_up env argv) @ run_trace env 0)
        \<and> (status (before_validation env argv) = Running \<longrightarrow>
             events (main env argv) = events (after_set_up env argv) @ run_trace env 0)"
    using set_up main_events [of env argv] by blast
  show ?thesis
    using call reads runs by (intro conjI)
qed

text \<open>
  C5: the enumerators of \<open>Program\<close> have the positions 0 to 4, and once the graph is built
  the vector \<open>programs\<close> holds at each enumerator's position the program it names: the
  copy from the stream \<open>input_write\<close> to the tensor, the hundredfold repetition of the
  first compute set, the second compute set, the third, and the copy from the tensor to
  the stream \<open>output_read\<close>. The calls of \<open>engine.run\<close> are made for the positions 0, 1, 2,
  3, 4 in this order: all five when the run reaches validation, a prefix of them when an
  exception ends it, and none when the graph is never built.
\<close>

theorem programs_in_enum_order:
  "map Program_index
       [COPY_TO_IPU, ADD_SOMETHING, MULTIPLY_SOMETHING_NUM_TIMES, SUM_PROG, COPY_FROM_IPU]
     = [0, 1, 2, 3, 4]
   \<and> (status (after_set_up env argv) = Running \<longrightarrow>
        programs (main env argv) ! Program_index COPY_TO_IPU
          = Copy (Stream ''input_write'') (Tensor tensor0)
        \<and> programs (main env argv) ! Program_index ADD_SOMETHING
          = Sequence [Repeat 100 (Execute computeSet0)]
        \<and> programs (main env argv) ! Program_index MULTIPLY_SOMETHING_NUM_TIMES
          = Execute computeSet1
        \<and> programs (main env argv) ! Program_index SUM_PROG = Execute computeSet2
        \<and> programs (main env argv) ! Program_index COPY_FROM_IPU
          = Copy (Tensor tensor0) (Stream ''output_read'')
        \<and> length (programs (main env argv)) = 5
        \<and> prefix (engine_runs (events (main env argv))) [0, 1, 2, 3, 4]
        \<and> (status (before_validation env argv) = Running \<longrightarrow>
             engine_runs (events (main env argv)) = [0, 1, 2, 3, 4]))
   \<and> (status (after_set_up env argv) \<noteq> Running \<longrightarrow> engine_runs (events (main env argv)) = [])"
proof -
  have none_yet: "engine_runs (events (after_set_up env argv)) = []"
    by (simp add: after_set_up_def set_up_engine_runs parse_arguments_rest)
  have stopped: "engine_runs (events (main env argv)) = []"
    if "status (after_set_up env argv) \<noteq> Running"
    using that none_yet by (simp add: main_def before_validation_def run_statements_halted)
  have progs: "programs (main env argv)
      = [copy_input, add_sequence, Execute computeSet1, Execute computeSet2, copy_output]"
    if "status (after_set_up env argv) = Running"
    using set_up_result(7) [OF that [unfolded after_set_up_def]]
      run_part_frame [OF subset_refl, of env "after_set_up env argv"]
    by (simp add: main_def before_validation_def run_statements_append after_set_up_def)
  have order: "prefix (engine_runs (events (main env argv))) [0, 1, 2, 3, 4]"
    if "status (after_set_up env argv) = Running"
    using engine_runs_prefix [OF main_events(1) [OF that]] none_yet
    by (simp add: engine_runs_append engine_runs_run_trace)
  have all: "engine_runs (events (main env argv)) = [0, 1, 2, 3, 4]"
    if "status (after_set_up env argv) = Running" "status (before_validation env argv) = Running"
    using main_events(2) [OF that] none_yet
    by (simp add: engine_runs_append engine_runs_run_trace)
  show ?thesis
    using stopped progs order all
    by (simp add: copy_input_def copy_output_def add_sequence_def)
qed

section \<open>Properties of the computation\<close>

lemma read_element:
  "i < length (mem t) \<Longrightarrow> read_view mem (element t i) = Some [mem t ! i]"
  by (simp add: read_view_def element_def)

lemma read_scalar:
  "mem t = [x] \<Longrightarrow> read_view mem (scalar t) = Some [x]"
  by (simp add: read_view_def scalar_def)

lemma write_element:
  "i < length (mem t) \<Longrightarrow> write_view mem (element t i) [x] = Some (mem (t := (mem t)[i := x]))"
  by (simp add: write_view_def element_def)

lemma row_view:
  "slice_flatten t ncols (i, 0) (Suc i, ncols) = (t, map (\<lambda>c. i * ncols + c) [0..<ncols])"
  by (simp add: slice_flatten_def)

lemma read_row:
  assumes "i * ncols + ncols \<le> length (mem t)"
  shows "read_view mem (slice_flatten t ncols (i, 0) (Suc i, ncols))
    = Some (map (\<lambda>c. mem t ! (i * ncols + c)) [0..<ncols])"
  using assms by (auto simp add: read_view_def row_view comp_def)

lemma fill_same:
  "length (fold (\<lambda>(i, x) ys. ys[i := x]) (zip idx (replicate (length idx) v)) ys) = length ys"
  "j < length ys \<Longrightarrow>
     fold (\<lambda>(i, x) ys. ys[i := x]) (zip idx (replicate (length idx) v)) ys ! j
       = (if j \<in> set idx then v else ys ! j)"
proof (induction idx arbitrary: ys)
  case Nil
  {
    case 1
    show ?case by simp
  next
    case 2
    show ?case by simp
  }
next
  case (Cons i idx)
  {
    case 1
    show ?case using Cons.IH(1) [of "ys[i := v]"] by simp
  next
    case 2
    then show ?case using Cons.IH(2) [of "ys[i := v]"] by (auto simp add: nth_list_update)
  }
qed

lemma write_row:
  assumes "i * ncols + ncols \<le> length (mem t)"
  shows "write_view mem (slice_flatten t ncols (i, 0) (Suc i, ncols)) (replicate ncols v)
    = Some (mem (t := map (\<lambda>j. if i * ncols \<le> j \<and> j < i * ncols + ncols then v else mem t ! j)
                        [0..<length (mem t)]))"
proof -
  let ?idx = "map (\<lambda>c. i * ncols + c) [0..<ncols]"
  have len: "length ?idx = ncols" by simp
  have members: "j \<in> set ?idx \<longleftrightarrow> i * ncols \<le> j \<and> j < i * ncols + ncols" for j
  proof
    assume "j \<in> set ?idx"
    then show "i * ncols \<le> j \<and> j < i * ncols + ncols" by auto
  next
    assume "i * ncols \<le> j \<and> j < i * ncols + ncols"
    then have "j - i * ncols < ncols" "j = i * ncols + (j - i * ncols)" by linarith+
    then show "j \<in> set ?idx" by (metis (no_types, lifting) atLeast0LessThan imageI lessThan_iff
          list.set_map set_upt)
  qed
  have "fold (\<lambda>(i, x) ys. ys[i := x]) (zip ?idx (replicate ncols v)) (mem t)
      = map (\<lambda>j. if i * ncols \<le> j \<and> j < i * ncols + ncols then v else mem t ! j)
          [0..<length (mem t)]"
  proof (rule nth_equalityI)
    show "length (fold (\<lambda>(i, x) ys. ys[i := x]) (zip ?idx (replicate ncols v)) (mem t))
        = length (map (\<lambda>j. if i * ncols \<le> j \<and> j < i * ncols + ncols then v else mem t ! j)
            [0..<length (mem t)])"
      using fill_same(1) [of ?idx v "mem t"] by simp
  next
    fix j
    assume "j < length (fold (\<lambda>(i, x) ys. ys[i := x]) (zip ?idx (replicate ncols v)) (mem t))"
    then have j: "j < length (mem t)"
      using fill_same(1) [of ?idx v "mem t"] by simp
    have "fold (\<lambda>(i, x) ys. ys[i := x]) (zip ?idx (replicate ncols v)) (mem t) ! j
        = (if j \<in> set ?idx then v else mem t ! j)"
      using fill_same(2) [OF j, of ?idx v] by simp
    then show "fold (\<lambda>(i, x) ys. ys[i := x]) (zip ?idx (replicate ncols v)) (mem t) ! j
        = map (\<lambda>j. if i * ncols \<le> j \<and> j < i * ncols + ncols then v else mem t ! j)
            [0..<length (mem t)] ! j"
      unfolding members using j by simp
  qed
  then show ?thesis
    using assms by (auto simp add: write_view_def row_view)
qed


lemma run_add_vertex:
  assumes "mem five = [s]" and "i < length (mem tensor0)"
  shows "run_vertex (loop_body nw i ! 0) mem
    = Some (mem (tensor0 := (mem tensor0)[i := mem tensor0 ! i + s]))"
  using assms
  by (simp add: loop_body_def Let_def run_vertex_def field_def set_field_def read_element
      read_scalar write_element AddSomething_compute_def)

lemma run_multiply_vertex:
  assumes "mem ten = [t]" and "i < length (mem tensor0)" and "i * 20 + 20 \<le> length (mem tensor1)"
  shows "run_vertex (loop_body nw i ! 1) mem
    = Some (mem (tensor1 := map (\<lambda>j. if i * 20 \<le> j \<and> j < i * 20 + 20
                                       then mem tensor0 ! i * t else mem tensor1 ! j)
                              [0..<length (mem tensor1)]))"
  using assms
  by (simp add: loop_body_def Let_def run_vertex_def field_def set_field_def read_element
      read_scalar read_row write_row MultiplySomethingNumTimes_compute_def)

lemma run_sum_vertex:
  assumes "i < length (mem tensor0)" and "i * 20 + 20 \<le> length (mem tensor1)"
  shows "run_vertex (loop_body nw i ! 2) mem
    = Some (mem (tensor0 := (mem tensor0)[i := sum_list (map (\<lambda>c. mem tensor1 ! (i * 20 + c)) [0..<20])]))"
  using assms
  by (simp add: loop_body_def Let_def run_vertex_def field_def set_field_def read_element
      read_row write_element Sum_compute_def)


lemma vertices_of_set:
  "filter (\<lambda>v. vtx_set v = computeSet0) (add_vertices nt nw) = map (\<lambda>i. loop_body nw i ! 0) [0..<unat nt]"
  "filter (\<lambda>v. vtx_set v = computeSet1) (add_vertices nt nw) = map (\<lambda>i. loop_body nw i ! 1) [0..<unat nt]"
  "filter (\<lambda>v. vtx_set v = computeSet2) (add_vertices nt nw) = map (\<lambda>i. loop_body nw i ! 2) [0..<unat nt]"
proof -
  have "filter (\<lambda>v. vtx_set v = computeSet0) (concat (map (loop_body nw) xs))
      = map (\<lambda>i. loop_body nw i ! 0) xs" for xs
    by (induction xs) (simp_all add: loop_body_def Let_def)
  then show "filter (\<lambda>v. vtx_set v = computeSet0) (add_vertices nt nw)
      = map (\<lambda>i. loop_body nw i ! 0) [0..<unat nt]"
    by (simp add: add_vertices_def)
  have "filter (\<lambda>v. vtx_set v = computeSet1) (concat (map (loop_body nw) xs))
      = map (\<lambda>i. loop_body nw i ! 1) xs" for xs
    by (induction xs) (simp_all add: loop_body_def Let_def)
  then show "filter (\<lambda>v. vtx_set v = computeSet1) (add_vertices nt nw)
      = map (\<lambda>i. loop_body nw i ! 1) [0..<unat nt]"
    by (simp add: add_vertices_def)
  have "filter (\<lambda>v. vtx_set v = computeSet2) (concat (map (loop_body nw) xs))
      = map (\<lambda>i. loop_body nw i ! 2) xs" for xs
    by (induction xs) (simp_all add: loop_body_def Let_def)
  then show "filter (\<lambda>v. vtx_set v = computeSet2) (add_vertices nt nw)
      = map (\<lambda>i. loop_body nw i ! 2) [0..<unat nt]"
    by (simp add: add_vertices_def)
qed

lemma run_vertices_snoc:
  "run_vertices (vs @ [v]) mem
     = (case run_vertices vs mem of None \<Rightarrow> None | Some mem' \<Rightarrow> run_vertex v mem')"
  by (induction vs arbitrary: mem) (simp_all split: option.splits)

lemma run_add_vertices:
  assumes "mem five = [s]" and "k \<le> length (mem tensor0)"
  shows "run_vertices (map (\<lambda>i. loop_body nw i ! 0) [0..<k]) mem
    = Some (mem (tensor0 := map (\<lambda>j. if j < k then mem tensor0 ! j + s else mem tensor0 ! j)
                              [0..<length (mem tensor0)]))"
  using assms(2)
proof (induction k)
  case 0
  have "map (\<lambda>j. mem tensor0 ! j) [0..<length (mem tensor0)] = mem tensor0"
    by (rule map_nth)
  then show ?case by simp
next
  case (Suc k)
  let ?before = "map (\<lambda>j. if j < k then mem tensor0 ! j + s else mem tensor0 ! j)
      [0..<length (mem tensor0)]"
  let ?mem = "mem (tensor0 := ?before)"
  have done_k: "run_vertices (map (\<lambda>i. loop_body nw i ! 0) [0..<k]) mem = Some ?mem"
    by (rule Suc.IH) (use Suc.prems in simp)
  have "run_vertex (loop_body nw k ! 0) ?mem
      = Some (?mem (tensor0 := (?mem tensor0)[k := ?mem tensor0 ! k + s]))"
    by (rule run_add_vertex) (use assms(1) Suc.prems in simp_all)
  moreover have "(?mem tensor0)[k := ?mem tensor0 ! k + s]
      = map (\<lambda>j. if j < Suc k then mem tensor0 ! j + s else mem tensor0 ! j)
          [0..<length (mem tensor0)]"
    using Suc.prems by (intro nth_equalityI) (auto simp add: nth_list_update less_Suc_eq)
  ultimately have step: "run_vertex (loop_body nw k ! 0) ?mem = Some (mem (tensor0 := map (\<lambda>j. if j < Suc k then mem tensor0 ! j + s else mem tensor0 ! j)
          [0..<length (mem tensor0)]))"
    by (simp only: fun_upd_upd)
  have snoc: "map (\<lambda>i. loop_body nw i ! 0) [0..<Suc k]
      = map (\<lambda>i. loop_body nw i ! 0) [0..<k] @ [loop_body nw k ! 0]"
    by simp
  show ?case
    by (simp only: snoc run_vertices_snoc done_k option.case step)
qed

lemma run_multiply_vertices:
  assumes "mem ten = [t]" and "k \<le> length (mem tensor0)"
    and "length (mem tensor1) = 20 * length (mem tensor0)"
  shows "run_vertices (map (\<lambda>i. loop_body nw i ! 1) [0..<k]) mem
    = Some (mem (tensor1 := map (\<lambda>j. if j < k * 20 then mem tensor0 ! (j div 20) * t
                                       else mem tensor1 ! j)
                              [0..<length (mem tensor1)]))"
  using assms(2)
proof (induction k)
  case 0
  have "map (\<lambda>j. mem tensor1 ! j) [0..<length (mem tensor1)] = mem tensor1"
    by (rule map_nth)
  then show ?case by simp
next
  case (Suc k)
  let ?before = "map (\<lambda>j. if j < k * 20 then mem tensor0 ! (j div 20) * t else mem tensor1 ! j)
      [0..<length (mem tensor1)]"
  let ?mem = "mem (tensor1 := ?before)"
  have done_k: "run_vertices (map (\<lambda>i. loop_body nw i ! 1) [0..<k]) mem = Some ?mem"
    by (rule Suc.IH) (use Suc.prems in simp)
  have "run_vertex (loop_body nw k ! 1) ?mem
      = Some (?mem (tensor1 := map (\<lambda>j. if k * 20 \<le> j \<and> j < k * 20 + 20
                                       then ?mem tensor0 ! k * t else ?mem tensor1 ! j)
                              [0..<length (?mem tensor1)]))"
    by (rule run_multiply_vertex) (use assms(1,3) Suc.prems in simp_all)
  moreover have "map (\<lambda>j. if k * 20 \<le> j \<and> j < k * 20 + 20
                          then ?mem tensor0 ! k * t else ?mem tensor1 ! j)
                   [0..<length (?mem tensor1)]
      = map (\<lambda>j. if j < Suc k * 20 then mem tensor0 ! (j div 20) * t else mem tensor1 ! j)
          [0..<length (mem tensor1)]"
  proof (rule nth_equalityI)
    show "length (map (\<lambda>j. if k * 20 \<le> j \<and> j < k * 20 + 20
                          then ?mem tensor0 ! k * t else ?mem tensor1 ! j)
                   [0..<length (?mem tensor1)])
        = length (map (\<lambda>j. if j < Suc k * 20 then mem tensor0 ! (j div 20) * t
                           else mem tensor1 ! j) [0..<length (mem tensor1)])"
      by simp
  next
    fix j
    assume "j < length (map (\<lambda>j. if k * 20 \<le> j \<and> j < k * 20 + 20
                          then ?mem tensor0 ! k * t else ?mem tensor1 ! j)
                   [0..<length (?mem tensor1)])"
    then have j: "j < length (mem tensor1)" by simp
    have row: "j div 20 = k" if "k * 20 \<le> j" "j < k * 20 + 20"
      using that by (intro div_nat_eqI) simp_all
    show "map (\<lambda>j. if k * 20 \<le> j \<and> j < k * 20 + 20
                          then ?mem tensor0 ! k * t else ?mem tensor1 ! j)
                   [0..<length (?mem tensor1)] ! j
        = map (\<lambda>j. if j < Suc k * 20 then mem tensor0 ! (j div 20) * t else mem tensor1 ! j)
            [0..<length (mem tensor1)] ! j"
      using j row by auto
  qed
  ultimately have step: "run_vertex (loop_body nw k ! 1) ?mem = Some (mem (tensor1 := map (\<lambda>j. if j < Suc k * 20 then mem tensor0 ! (j div 20) * t else mem tensor1 ! j)
          [0..<length (mem tensor1)]))"
    by (simp only: fun_upd_upd)
  have snoc: "map (\<lambda>i. loop_body nw i ! 1) [0..<Suc k]
      = map (\<lambda>i. loop_body nw i ! 1) [0..<k] @ [loop_body nw k ! 1]"
    by simp
  show ?case
    by (simp only: snoc run_vertices_snoc done_k option.case step)
qed

lemma run_sum_vertices:
  assumes "k \<le> length (mem tensor0)" and "length (mem tensor1) = 20 * length (mem tensor0)"
  shows "run_vertices (map (\<lambda>i. loop_body nw i ! 2) [0..<k]) mem
    = Some (mem (tensor0 := map (\<lambda>j. if j < k
                                       then sum_list (map (\<lambda>c. mem tensor1 ! (j * 20 + c)) [0..<20])
                                       else mem tensor0 ! j)
                              [0..<length (mem tensor0)]))"
  using assms(1)
proof (induction k)
  case 0
  have "map (\<lambda>j. mem tensor0 ! j) [0..<length (mem tensor0)] = mem tensor0"
    by (rule map_nth)
  then show ?case by simp
next
  case (Suc k)
  let ?row = "\<lambda>j. sum_list (map (\<lambda>c. mem tensor1 ! (j * 20 + c)) [0..<20])"
  let ?before = "map (\<lambda>j. if j < k then ?row j else mem tensor0 ! j) [0..<length (mem tensor0)]"
  let ?mem = "mem (tensor0 := ?before)"
  have done_k: "run_vertices (map (\<lambda>i. loop_body nw i ! 2) [0..<k]) mem = Some ?mem"
    by (rule Suc.IH) (use Suc.prems in simp)
  have "run_vertex (loop_body nw k ! 2) ?mem
      = Some (?mem (tensor0 := (?mem tensor0)
                [k := sum_list (map (\<lambda>c. ?mem tensor1 ! (k * 20 + c)) [0..<20])]))"
    by (rule run_sum_vertex) (use assms(2) Suc.prems in simp_all)
  moreover have "(?mem tensor0)[k := sum_list (map (\<lambda>c. ?mem tensor1 ! (k * 20 + c)) [0..<20])]
      = map (\<lambda>j. if j < Suc k then ?row j else mem tensor0 ! j) [0..<length (mem tensor0)]"
    using Suc.prems by (intro nth_equalityI) (auto simp add: nth_list_update less_Suc_eq)
  ultimately have step: "run_vertex (loop_body nw k ! 2) ?mem = Some (mem (tensor0 := map (\<lambda>j. if j < Suc k then ?row j else mem tensor0 ! j) [0..<length (mem tensor0)]))"
    by (simp only: fun_upd_upd)
  have snoc: "map (\<lambda>i. loop_body nw i ! 2) [0..<Suc k]
      = map (\<lambda>i. loop_body nw i ! 2) [0..<k] @ [loop_body nw k ! 2]"
    by simp
  show ?case
    by (simp only: snoc run_vertices_snoc done_k option.case step)
qed


lemma exec_copy_input:
  assumes "map_of conn ''input_write'' = Some b" and "length (mem tensor0) = unat nt"
    and "unat nt \<le> length (host b)"
  shows "exec (built_graph nt nw) conn copy_input (mem, host)
    = Some (mem (tensor0 := take (unat nt) (host b)), host)"
  using assms by (simp add: copy_input_def copy_def fifo_size_def built_graph_def)

lemma exec_copy_output:
  assumes "map_of conn ''output_read'' = Some b" and "length (mem tensor0) = unat nt"
    and "unat nt \<le> length (host b)"
  shows "exec (built_graph nt nw) conn copy_output (mem, host)
    = Some (mem, host (b := mem tensor0 @ drop (unat nt) (host b)))"
  using assms by (simp add: copy_output_def copy_def fifo_size_def built_graph_def)

lemma exec_add_once:
  assumes "mem five = [s]" and "length (mem tensor0) = unat nt"
  shows "exec (built_graph nt nw) conn (Execute computeSet0) (mem, host)
    = Some (mem (tensor0 := map (\<lambda>x. x + s) (mem tensor0)), host)"
proof -
  have same: "map (\<lambda>j. if j < unat nt then mem tensor0 ! j + s else mem tensor0 ! j)
      [0..<length (mem tensor0)] = map (\<lambda>x. x + s) (mem tensor0)"
    using assms(2) by (intro nth_equalityI) simp_all
  have "run_vertices (map (\<lambda>i. loop_body nw i ! 0) [0..<unat nt]) mem
      = Some (mem (tensor0 := map (\<lambda>j. if j < unat nt then mem tensor0 ! j + s else mem tensor0 ! j)
                                [0..<length (mem tensor0)]))"
    by (rule run_add_vertices) (use assms in simp_all)
  then show ?thesis
    unfolding same by (simp add: built_graph_def vertices_of_set)
qed

lemma exec_add_repeated:
  assumes "mem five = [s]" and "length (mem tensor0) = unat nt"
  shows "repeat k (exec (built_graph nt nw) conn (Execute computeSet0)) (mem, host)
    = Some (mem (tensor0 := map (\<lambda>x. x + of_nat k * s) (mem tensor0)), host)"
  using assms
proof (induction k arbitrary: mem)
  case 0
  then show ?case by simp
next
  case (Suc k)
  let ?mem = "mem (tensor0 := map (\<lambda>x. x + s) (mem tensor0))"
  have once: "exec (built_graph nt nw) conn (Execute computeSet0) (mem, host) = Some (?mem, host)"
    using Suc.prems by (rule exec_add_once)
  have "repeat k (exec (built_graph nt nw) conn (Execute computeSet0)) (?mem, host)
      = Some (?mem (tensor0 := map (\<lambda>x. x + of_nat k * s) (?mem tensor0)), host)"
    by (rule Suc.IH) (use Suc.prems in simp_all)
  moreover have "map (\<lambda>x. x + of_nat k * s) (?mem tensor0)
      = map (\<lambda>x. x + of_nat (Suc k) * s) (mem tensor0)"
    by (simp add: algebra_simps)
  ultimately have "repeat k (exec (built_graph nt nw) conn (Execute computeSet0)) (?mem, host)
      = Some (mem (tensor0 := map (\<lambda>x. x + of_nat (Suc k) * s) (mem tensor0)), host)"
    by (simp only: fun_upd_upd)
  then show ?case
    by (simp only: repeat.simps once option.case)
qed

lemma exec_add_sequence:
  assumes "mem five = [5]" and "length (mem tensor0) = unat nt"
  shows "exec (built_graph nt nw) conn add_sequence (mem, host)
    = Some (mem (tensor0 := map (\<lambda>x. x + 500) (mem tensor0)), host)"
  using exec_add_repeated [OF assms, of 100 nw conn host]
  by (simp add: add_sequence_def)

lemma exec_multiply:
  assumes "mem ten = [t]" and "length (mem tensor0) = unat nt"
    and "length (mem tensor1) = 20 * unat nt"
  shows "exec (built_graph nt nw) conn (Execute computeSet1) (mem, host)
    = Some (mem (tensor1 := map (\<lambda>j. mem tensor0 ! (j div 20) * t) [0..<20 * unat nt]), host)"
proof -
  have same: "map (\<lambda>j. if j < unat nt * 20 then mem tensor0 ! (j div 20) * t else mem tensor1 ! j)
      [0..<length (mem tensor1)] = map (\<lambda>j. mem tensor0 ! (j div 20) * t) [0..<20 * unat nt]"
    using assms(3) by (intro nth_equalityI) simp_all
  have "run_vertices (map (\<lambda>i. loop_body nw i ! 1) [0..<unat nt]) mem
      = Some (mem (tensor1 := map (\<lambda>j. if j < unat nt * 20 then mem tensor0 ! (j div 20) * t
                                         else mem tensor1 ! j) [0..<length (mem tensor1)]))"
    by (rule run_multiply_vertices) (use assms in simp_all)
  then show ?thesis
    unfolding same by (simp add: built_graph_def vertices_of_set)
qed

lemma exec_sum:
  assumes "length (mem tensor0) = unat nt" and "length (mem tensor1) = 20 * unat nt"
  shows "exec (built_graph nt nw) conn (Execute computeSet2) (mem, host)
    = Some (mem (tensor0 := map (\<lambda>i. sum_list (map (\<lambda>c. mem tensor1 ! (i * 20 + c)) [0..<20]))
                              [0..<unat nt]), host)"
proof -
  have same: "map (\<lambda>j. if j < unat nt then sum_list (map (\<lambda>c. mem tensor1 ! (j * 20 + c)) [0..<20])
                  else mem tensor0 ! j) [0..<length (mem tensor0)]
      = map (\<lambda>i. sum_list (map (\<lambda>c. mem tensor1 ! (i * 20 + c)) [0..<20])) [0..<unat nt]"
    using assms(1) by (intro nth_equalityI) simp_all
  have "run_vertices (map (\<lambda>i. loop_body nw i ! 2) [0..<unat nt]) mem
      = Some (mem (tensor0 := map (\<lambda>j. if j < unat nt
                                         then sum_list (map (\<lambda>c. mem tensor1 ! (j * 20 + c)) [0..<20])
                                         else mem tensor0 ! j) [0..<length (mem tensor0)]))"
    by (rule run_sum_vertices) (use assms in simp_all)
  then show ?thesis
    unfolding same by (simp add: built_graph_def vertices_of_set)
qed

lemma computed_values:
  "map (\<lambda>i. sum_list (map (\<lambda>c. map (\<lambda>j. map (\<lambda>x. x + 500) (replicate n (0 :: cint)) ! (j div 20) * 10)
                                  [0..<20 * n] ! (i * 20 + c)) [0..<20])) [0..<n]
     = replicate n 100000"
proof (rule nth_equalityI)
  show "length (map (\<lambda>i. sum_list (map (\<lambda>c. map (\<lambda>j. map (\<lambda>x. x + 500) (replicate n (0 :: cint))
      ! (j div 20) * 10) [0..<20 * n] ! (i * 20 + c)) [0..<20])) [0..<n])
      = length (replicate n (100000 :: cint))"
    by simp
next
  fix i
  assume "i < length (map (\<lambda>i. sum_list (map (\<lambda>c. map (\<lambda>j. map (\<lambda>x. x + 500)
      (replicate n (0 :: cint)) ! (j div 20) * 10) [0..<20 * n] ! (i * 20 + c)) [0..<20])) [0..<n])"
  then have i: "i < n" by simp
  have each: "map (\<lambda>j. map (\<lambda>x. x + 500) (replicate n (0 :: cint)) ! (j div 20) * 10)
      [0..<20 * n] ! (i * 20 + c) = 5000" if "c < 20" for c
  proof -
    have in_range: "i * 20 + c < 20 * n" using i that by simp
    have "(i * 20 + c) div 20 = i" using that by simp
    then show ?thesis using in_range i by simp
  qed
  have row: "map (\<lambda>c. map (\<lambda>j. map (\<lambda>x. x + 500) (replicate n (0 :: cint)) ! (j div 20) * 10)
      [0..<20 * n] ! (i * 20 + c)) [0..<20] = map (\<lambda>c. 5000) [0..<20]"
  proof (rule map_cong)
    fix c :: nat
    assume "c \<in> set [0..<20]"
    then have "c < 20" by simp
    then show "map (\<lambda>j. map (\<lambda>x. x + 500) (replicate n (0 :: cint)) ! (j div 20) * 10)
        [0..<20 * n] ! (i * 20 + c) = 5000"
      by (rule each)
  qed simp
  have "sum_list (map (\<lambda>c. (5000 :: cint)) [0..<20]) = 100000"
    by (simp add: sum_list_triv)
  then have "sum_list (map (\<lambda>c. map (\<lambda>j. map (\<lambda>x. x + 500) (replicate n (0 :: cint)) ! (j div 20) * 10)
      [0..<20 * n] ! (i * 20 + c)) [0..<20]) = (100000 :: cint)"
    unfolding row .
  then show "map (\<lambda>i. sum_list (map (\<lambda>c. map (\<lambda>j. map (\<lambda>x. x + 500) (replicate n (0 :: cint))
      ! (j div 20) * 10) [0..<20 * n] ! (i * 20 + c)) [0..<20])) [0..<n] ! i
      = replicate n (100000 :: cint) ! i"
    using i by simp
qed


lemma initial_memory_built:
  "initial_memory env (built_graph nt nw) five = [5]"
  "initial_memory env (built_graph nt nw) ten = [10]"
  "length (initial_memory env (built_graph nt nw) tensor0) = unat nt"
  "length (initial_memory env (built_graph nt nw) tensor1) = 20 * unat nt"
  by (simp_all add: initial_memory_def built_graph_def)

lemma compile_load_connect:
  assumes "status s = Running" and "\<not> throws env EngineConstruct" and "\<not> throws env EngineLoad"
    and "\<not> throws env (ConnectStream ''input_write'')"
    and "\<not> throws env (ConnectStream ''output_read'')"
    and r: "r = run_statements
      [record_start env, print a, engine_construct env, print_took env,
       print b, record_start env, engine_load env, print_took env,
       connectStream env ''input_write'' Buffer_in,
       connectStream env ''output_read'' Buffer_out] s"
  shows "status r = Running"
    and "graph r = graph s" and "programs r = programs s"
    and "streams r = (''output_read'', Buffer_out) # (''input_write'', Buffer_in) # streams s"
    and "memory r = initial_memory env (graph s)"
    and "buffer_in r = buffer_in s" and "buffer_out r = buffer_out s"
    and "num_workers_total r = num_workers_total s"
  unfolding r using assms(1-5)
  by (simp_all add: run_statements_Cons run_statements_Nil step_def print_def record_start_def
      print_took_def now_def timeIt_def log_event_def sdk_def engine_construct_def
      engine_load_def connectStream_def)

lemma log_event_fields:
  "status (log_event e s) = status s" "graph (log_event e s) = graph s"
  "programs (log_event e s) = programs s" "streams (log_event e s) = streams s"
  "memory (log_event e s) = memory s" "num_workers_total (log_event e s) = num_workers_total s"
  by (simp_all add: log_event_def)

lemma run_block:
  assumes "status s = Running" and "\<not> throws env (EngineRun (Program_index p))"
    and "Program_index p < length (programs s)"
    and "exec (graph s) (streams s) (programs s ! Program_index p) (memory s, host_of s) = Some m"
    and r: "r = run_statements [print a, record_start env, engine_run env p, print_took env] s"
  shows "status r = Running"
    and "graph r = graph s" and "programs r = programs s" and "streams r = streams s"
    and "memory r = fst m" and "buffer_in r = snd m Buffer_in"
    and "buffer_out r = snd m Buffer_out"
    and "num_workers_total r = num_workers_total s"
proof -
  define s1 where "s1 = record_start env (print a s)"
  define s2 where "s2 = engine_run env p s1"
  have p1: "status (print a s) = Running"
    using assms(1) by (simp add: print_def)
  have s1: "status s1 = Running" "graph s1 = graph s" "programs s1 = programs s"
    "streams s1 = streams s" "memory s1 = memory s" "host_of s1 = host_of s"
    "num_workers_total s1 = num_workers_total s"
    unfolding s1_def using assms(1)
    by (simp_all add: print_def record_start_def now_def log_event_def host_of_def fun_eq_iff
        split: host_buffer.splits)
  have s2: "s2 = (log_event (Sdk (EngineRun (Program_index p))) s1)
      \<lparr>memory := fst m, buffer_in := snd m Buffer_in, buffer_out := snd m Buffer_out\<rparr>"
    unfolding s2_def using assms(2,3,4) s1
    by (simp add: engine_run_def sdk_def host_of_log_event log_event_fields)
  have s2_fields: "status s2 = Running" "graph s2 = graph s" "programs s2 = programs s"
    "streams s2 = streams s" "memory s2 = fst m" "buffer_in s2 = snd m Buffer_in"
    "buffer_out s2 = snd m Buffer_out" "num_workers_total s2 = num_workers_total s"
    unfolding s2 using s1 by (simp_all add: log_event_fields)
  have "r = step (print_took env) (step (engine_run env p) (step (record_start env)
      (step (print a) s)))"
    unfolding r by (simp add: run_statements_Cons run_statements_Nil)
  then have r': "r = print_took env s2"
    using assms(1) p1 s1(1) s2_fields(1) by (simp add: step_def s1_def s2_def)
  show "status r = Running" "graph r = graph s" "programs r = programs s"
    "streams r = streams s" "memory r = fst m" "buffer_in r = snd m Buffer_in"
    "buffer_out r = snd m Buffer_out" "num_workers_total r = num_workers_total s"
    unfolding r' using s2_fields
    by (simp_all add: print_took_def timeIt_def now_def print_def log_event_def)
qed


lemma compile_load_run_blocks:
  "compile_load_run env =
     [record_start env, print [Str (newline # ''Compiling graph program...'' @ [newline])],
      engine_construct env, print_took env,
      print [Str (''Loading program on device...'' @ [newline])], record_start env,
      engine_load env, print_took env,
      connectStream env ''input_write'' Buffer_in,
      connectStream env ''output_read'' Buffer_out]
     @ [print [Str (''Copying input data to IPU...'' @ [newline])], record_start env,
        engine_run env COPY_TO_IPU, print_took env]
     @ [print [Str (''Running repeat add program...'' @ [newline])], record_start env,
        engine_run env ADD_SOMETHING, print_took env]
     @ [print [Str (''Running multiply / clone program...'' @ [newline])], record_start env,
        engine_run env MULTIPLY_SOMETHING_NUM_TIMES, print_took env]
     @ [print [Str (''Running sum program...'' @ [newline])], record_start env,
        engine_run env SUM_PROG, print_took env]
     @ [print [Str (''Copying ouput data from IPU...'' @ [newline])], record_start env,
        engine_run env COPY_FROM_IPU, print_took env]"
  by (simp add: compile_load_run_def)

lemma run_computes:
  assumes s0: "status s0 = Running" "graph s0 = built_graph nt nw"
      "programs s0 = [copy_input, add_sequence, Execute computeSet1, Execute computeSet2, copy_output]"
      "buffer_in s0 = replicate (unat nt) 0" "buffer_out s0 = replicate (unat nt) 0"
      "streams s0 = []"
    and quiet: "\<not> throws env EngineConstruct" "\<not> throws env EngineLoad"
      "\<not> throws env (ConnectStream ''input_write'')"
      "\<not> throws env (ConnectStream ''output_read'')"
      "\<not> throws env (EngineRun 0)" "\<not> throws env (EngineRun 1)" "\<not> throws env (EngineRun 2)"
      "\<not> throws env (EngineRun 3)" "\<not> throws env (EngineRun 4)"
  shows "status (run_statements (compile_load_run env) s0) = Running"
    and "buffer_out (run_statements (compile_load_run env) s0) = replicate (unat nt) 100000"
    and "buffer_in (run_statements (compile_load_run env) s0) = replicate (unat nt) 0"
proof -
  let ?n = "unat nt"
  let ?g = "built_graph nt nw"
  let ?conn = "[(''output_read'', Buffer_out), (''input_write'', Buffer_in)]"
  define r0 where "r0 = run_statements
      [record_start env, print [Str (newline # ''Compiling graph program...'' @ [newline])],
       engine_construct env, print_took env,
       print [Str (''Loading program on device...'' @ [newline])], record_start env,
       engine_load env, print_took env,
       connectStream env ''input_write'' Buffer_in,
       connectStream env ''output_read'' Buffer_out] s0"
  define r1 where "r1 = run_statements
      [print [Str (''Copying input data to IPU...'' @ [newline])], record_start env,
       engine_run env COPY_TO_IPU, print_took env] r0"
  define r2 where "r2 = run_statements
      [print [Str (''Running repeat add program...'' @ [newline])], record_start env,
       engine_run env ADD_SOMETHING, print_took env] r1"
  define r3 where "r3 = run_statements
      [print [Str (''Running multiply / clone program...'' @ [newline])], record_start env,
       engine_run env MULTIPLY_SOMETHING_NUM_TIMES, print_took env] r2"
  define r4 where "r4 = run_statements
      [print [Str (''Running sum program...'' @ [newline])], record_start env,
       engine_run env SUM_PROG, print_took env] r3"
  define r5 where "r5 = run_statements
      [print [Str (''Copying ouput data from IPU...'' @ [newline])], record_start env,
       engine_run env COPY_FROM_IPU, print_took env] r4"
  have whole: "run_statements (compile_load_run env) s0 = r5"
    unfolding compile_load_run_blocks run_statements_append r0_def r1_def r2_def r3_def r4_def
      r5_def ..

  note b0 = compile_load_connect [OF s0(1) quiet(1-4) r0_def]
  have r0: "status r0 = Running" "graph r0 = ?g"
    "programs r0 = [copy_input, add_sequence, Execute computeSet1, Execute computeSet2, copy_output]"
    "streams r0 = ?conn" "memory r0 five = [5]" "memory r0 ten = [10]"
    "length (memory r0 tensor0) = ?n" "length (memory r0 tensor1) = 20 * ?n"
    "buffer_in r0 = replicate ?n 0" "buffer_out r0 = replicate ?n 0"
    using b0 s0 by (simp_all add: initial_memory_built)

  have "exec ?g ?conn copy_input (memory r0, host_of r0)
      = Some ((memory r0) (tensor0 := take ?n (host_of r0 Buffer_in)), host_of r0)"
    by (rule exec_copy_input) (simp_all add: r0 host_of_def)
  then have e0: "exec (graph r0) (streams r0) (programs r0 ! Program_index COPY_TO_IPU)
      (memory r0, host_of r0)
      = Some ((memory r0) (tensor0 := take ?n (host_of r0 Buffer_in)), host_of r0)"
    by (simp add: r0)
  note b1 = run_block [OF r0(1) _ _ e0 r1_def]
  have r1: "status r1 = Running" "graph r1 = ?g"
    "programs r1 = [copy_input, add_sequence, Execute computeSet1, Execute computeSet2, copy_output]"
    "streams r1 = ?conn" "memory r1 five = [5]" "memory r1 ten = [10]"
    "memory r1 tensor0 = replicate ?n 0" "length (memory r1 tensor1) = 20 * ?n"
    "buffer_in r1 = replicate ?n 0" "buffer_out r1 = replicate ?n 0"
    using b1 quiet r0 by (simp_all add: host_of_def)

  have "exec ?g ?conn add_sequence (memory r1, host_of r1)
      = Some ((memory r1) (tensor0 := map (\<lambda>x. x + 500) (memory r1 tensor0)), host_of r1)"
    by (rule exec_add_sequence) (simp_all add: r1)
  then have e1: "exec (graph r1) (streams r1) (programs r1 ! Program_index ADD_SOMETHING)
      (memory r1, host_of r1)
      = Some ((memory r1) (tensor0 := map (\<lambda>x. x + 500) (memory r1 tensor0)), host_of r1)"
    by (simp add: r1(2,3,4))
  note b2 = run_block [OF r1(1) _ _ e1 r2_def]
  have r2: "status r2 = Running" "graph r2 = ?g"
    "programs r2 = [copy_input, add_sequence, Execute computeSet1, Execute computeSet2, copy_output]"
    "streams r2 = ?conn" "memory r2 five = [5]" "memory r2 ten = [10]"
    "memory r2 tensor0 = map (\<lambda>x. x + 500) (replicate ?n 0)"
    "length (memory r2 tensor1) = 20 * ?n"
    "buffer_in r2 = replicate ?n 0" "buffer_out r2 = replicate ?n 0"
    using b2 quiet r1 by (simp_all add: host_of_def)

  have "exec ?g ?conn (Execute computeSet1) (memory r2, host_of r2)
      = Some ((memory r2) (tensor1 := map (\<lambda>j. memory r2 tensor0 ! (j div 20) * 10) [0..<20 * ?n]),
          host_of r2)"
    by (rule exec_multiply) (simp_all add: r2)
  then have e2: "exec (graph r2) (streams r2) (programs r2 ! Program_index MULTIPLY_SOMETHING_NUM_TIMES)
      (memory r2, host_of r2)
      = Some ((memory r2) (tensor1 := map (\<lambda>j. memory r2 tensor0 ! (j div 20) * 10) [0..<20 * ?n]),
          host_of r2)"
    by (simp add: r2(2,3,4))
  note b3 = run_block [OF r2(1) _ _ e2 r3_def]
  have r3: "status r3 = Running" "graph r3 = ?g"
    "programs r3 = [copy_input, add_sequence, Execute computeSet1, Execute computeSet2, copy_output]"
    "streams r3 = ?conn" "length (memory r3 tensor0) = ?n"
    "memory r3 tensor1 = map (\<lambda>j. map (\<lambda>x. x + 500) (replicate ?n 0) ! (j div 20) * 10) [0..<20 * ?n]"
    "buffer_in r3 = replicate ?n 0" "buffer_out r3 = replicate ?n 0"
    using b3 quiet r2 by (simp_all add: host_of_def)

  have "exec ?g ?conn (Execute computeSet2) (memory r3, host_of r3)
      = Some ((memory r3) (tensor0 := map (\<lambda>i. sum_list (map (\<lambda>c. memory r3 tensor1 ! (i * 20 + c))
            [0..<20])) [0..<?n]), host_of r3)"
    by (rule exec_sum) (simp_all add: r3)
  then have e3: "exec (graph r3) (streams r3) (programs r3 ! Program_index SUM_PROG)
      (memory r3, host_of r3)
      = Some ((memory r3) (tensor0 := map (\<lambda>i. sum_list (map (\<lambda>c. memory r3 tensor1 ! (i * 20 + c))
            [0..<20])) [0..<?n]), host_of r3)"
    by (simp add: r3(2,3,4))
  note b4 = run_block [OF r3(1) _ _ e3 r4_def]
  have "memory r4 tensor0 = map (\<lambda>i. sum_list (map (\<lambda>c. memory r3 tensor1 ! (i * 20 + c))
      [0..<20])) [0..<?n]"
    using b4(5) quiet r3(3) by simp
  then have sums: "memory r4 tensor0 = replicate ?n 100000"
    unfolding r3(6) computed_values .
  have r4: "status r4 = Running" "graph r4 = ?g"
    "programs r4 = [copy_input, add_sequence, Execute computeSet1, Execute computeSet2, copy_output]"
    "streams r4 = ?conn" "buffer_in r4 = replicate ?n 0" "buffer_out r4 = replicate ?n 0"
    using b4 quiet r3 by (simp_all add: host_of_def)

  have "exec ?g ?conn copy_output (memory r4, host_of r4)
      = Some (memory r4, (host_of r4) (Buffer_out := memory r4 tensor0
          @ drop ?n (host_of r4 Buffer_out)))"
    by (rule exec_copy_output) (simp_all add: r4 sums host_of_def)
  then have e4: "exec (graph r4) (streams r4) (programs r4 ! Program_index COPY_FROM_IPU)
      (memory r4, host_of r4)
      = Some (memory r4, (host_of r4) (Buffer_out := memory r4 tensor0
          @ drop ?n (host_of r4 Buffer_out)))"
    by (simp add: r4(2,3,4))
  note b5 = run_block [OF r4(1) _ _ e4 r5_def]
  show "status (run_statements (compile_load_run env) s0) = Running"
    and "buffer_out (run_statements (compile_load_run env) s0) = replicate (unat nt) 100000"
    and "buffer_in (run_statements (compile_load_run env) s0) = replicate (unat nt) 0"
    unfolding whole using b5 quiet r4 sums by (simp_all add: host_of_def)
qed


lemma validation_passes:
  "(\<forall>j < length buf. i \<le> j \<longrightarrow> buf ! j = 100000) \<Longrightarrow> validation_loop buf i = None"
proof (induction buf i rule: validation_loop.induct)
  case (1 buf i)
  show ?case
  proof (cases "i < length buf")
    case True
    then have here: "buf ! i = 100000" using "1.prems" by simp
    have "validation_loop buf (Suc i) = None"
      using "1.IH" [OF True here] "1.prems" by simp
    then show ?thesis
      using True here by (subst validation_loop.simps) simp
  next
    case False
    then show ?thesis by (subst validation_loop.simps) simp
  qed
qed

lemma validation_loop_Some:
  "validation_loop buf i = Some k
   \<longleftrightarrow> i \<le> k \<and> k < length buf \<and> buf ! k \<noteq> 100000 \<and> (\<forall>j. i \<le> j \<and> j < k \<longrightarrow> buf ! j = 100000)"
proof (induction buf i rule: validation_loop.induct)
  case (1 buf i)
  show ?case
  proof (cases "i < length buf")
    case False
    then show ?thesis by (subst validation_loop.simps) auto
  next
    case True
    show ?thesis
    proof (cases "buf ! i = 100000")
      case here: True
      have "validation_loop buf i = validation_loop buf (Suc i)"
        using True here by (subst validation_loop.simps) simp
      moreover have "(Suc i \<le> k \<and> k < length buf \<and> buf ! k \<noteq> 100000
            \<and> (\<forall>j. Suc i \<le> j \<and> j < k \<longrightarrow> buf ! j = 100000))
          \<longleftrightarrow> (i \<le> k \<and> k < length buf \<and> buf ! k \<noteq> 100000
            \<and> (\<forall>j. i \<le> j \<and> j < k \<longrightarrow> buf ! j = 100000))"
        using here by (metis Suc_leD Suc_le_eq le_neq_implies_less)
      ultimately show ?thesis using "1.IH" [OF True here] by simp
    next
      case here: False
      have "validation_loop buf i = Some i"
        using True here by (subst validation_loop.simps) simp
      moreover have "(i \<le> k \<and> k < length buf \<and> buf ! k \<noteq> 100000
            \<and> (\<forall>j. i \<le> j \<and> j < k \<longrightarrow> buf ! j = 100000)) \<longleftrightarrow> i = k"
      proof
        assume a: "i \<le> k \<and> k < length buf \<and> buf ! k \<noteq> 100000
            \<and> (\<forall>j. i \<le> j \<and> j < k \<longrightarrow> buf ! j = 100000)"
        show "i = k"
        proof (rule ccontr)
          assume "i \<noteq> k"
          then have "i \<le> i \<and> i < k" using a by simp
          then have "buf ! i = 100000" using a by blast
          then show False using here by simp
        qed
      next
        assume "i = k"
        then show "i \<le> k \<and> k < length buf \<and> buf ! k \<noteq> 100000
            \<and> (\<forall>j. i \<le> j \<and> j < k \<longrightarrow> buf ! j = 100000)"
          using True here by auto
      qed
      ultimately show ?thesis by auto
    qed
  qed
qed

lemma validation_loop_None:
  "validation_loop buf i = None \<longleftrightarrow> (\<forall>j < length buf. i \<le> j \<longrightarrow> buf ! j = 100000)"
proof
  assume "\<forall>j < length buf. i \<le> j \<longrightarrow> buf ! j = 100000"
  then show "validation_loop buf i = None" by (rule validation_passes)
next
  assume none: "validation_loop buf i = None"
  show "\<forall>j < length buf. i \<le> j \<longrightarrow> buf ! j = 100000"
  proof (rule ccontr)
    assume "\<not> (\<forall>j < length buf. i \<le> j \<longrightarrow> buf ! j = 100000)"
    then have ex: "\<exists>j. i \<le> j \<and> j < length buf \<and> buf ! j \<noteq> 100000" by blast
    define k where "k = (LEAST j. i \<le> j \<and> j < length buf \<and> buf ! j \<noteq> 100000)"
    have k: "i \<le> k \<and> k < length buf \<and> buf ! k \<noteq> 100000"
      unfolding k_def using ex by (rule LeastI_ex)
    have least: "buf ! j = 100000" if "i \<le> j" "j < k" for j
    proof (rule ccontr)
      assume "buf ! j \<noteq> 100000"
      then have "i \<le> j \<and> j < length buf \<and> buf ! j \<noteq> 100000" using that k by simp
      then have "k \<le> j" unfolding k_def by (rule Least_le)
      then show False using that by simp
    qed
    have "validation_loop buf i = Some k"
      using k least by (simp add: validation_loop_Some)
    then show False using none by simp
  qed
qed

lemma check_output_result:
  assumes "status s = Running"
  shows "run_statements check_output s
     = (case validation_loop (buffer_out s) 0 of
          None \<Rightarrow> s\<lparr>cout := cout s @ [Str (''Validating output...'' @ [newline]),
                                   Str (''Done!'' @ [newline])],
                   status := Returned 0\<rparr>
        | Some i \<Rightarrow> s\<lparr>cout := cout s @ [Str (''Validating output...'' @ [newline])],
                     status := Assert_failed i\<rparr>)"
  using assms
  by (simp add: check_output_def run_statements_Cons run_statements_Nil step_def print_def
      validate_def return_from_main_def split: option.splits)

lemma check_output_passes:
  assumes "status s = Running" and "validation_loop (buffer_out s) 0 = None"
  shows "status (run_statements check_output s) = Returned 0"
    and "buffer_out (run_statements check_output s) = buffer_out s"
  using assms
  by (simp_all add: check_output_def run_statements_Cons run_statements_Nil step_def print_def
      validate_def return_from_main_def)

lemma set_up_runs:
  assumes "status p = Running" and "\<not> throws env CreateModelDevice" and "\<not> throws env BuildGraph"
  shows "status (run_statements (set_up env) p) = Running"
  using assms
  by (simp add: set_up_def run_statements_Cons run_statements_Nil step_def acquire_device_def
      build_graph_def create_buffers_def print_def log_event_def Let_def split: sum.splits)

lemma parse_arguments_status:
  "status (parse_arguments argv) = Running \<or> status (parse_arguments argv) = Exited (- 1)"
proof (cases "(1 < length argv \<longrightarrow> parses_fully_within 4 (argv ! 1))
    \<and> (2 < length argv \<longrightarrow> parses_fully_within 1472 (argv ! 2))")
  case True
  then show ?thesis using parse_arguments_accepted(1) [of argv] by simp
next
  case False
  moreover have "2 < length argv \<longrightarrow> 1 < length argv" by simp
  ultimately have "status (parse_arguments argv) = Exited (- 1)"
    using parse_arguments_first_rejected(1) [of argv] parse_arguments_second_rejected(1) [of argv]
    by blast
  then show ?thesis by simp
qed

lemma before_validation_computes:
  assumes set_up: "status (after_set_up env argv) = Running"
    and quiet: "\<not> throws env EngineConstruct" "\<not> throws env EngineLoad"
      "\<not> throws env (ConnectStream ''input_write'')"
      "\<not> throws env (ConnectStream ''output_read'')"
      "\<not> throws env (EngineRun 0)" "\<not> throws env (EngineRun 1)" "\<not> throws env (EngineRun 2)"
      "\<not> throws env (EngineRun 3)" "\<not> throws env (EngineRun 4)"
  shows "status (before_validation env argv) = Running"
    and "buffer_out (before_validation env argv)
      = replicate (unat (num_workers_total (after_set_up env argv))) 100000"
proof -
  note built = set_up_result [OF set_up [unfolded after_set_up_def], folded after_set_up_def]
  have streams: "streams (after_set_up env argv) = []"
    using built(10) by (simp add: parse_arguments_rest)
  note run = run_computes [OF set_up built(6) built(7) built(8) built(9) streams quiet,
      folded before_validation_def]
  show "status (before_validation env argv) = Running"
    and "buffer_out (before_validation env argv)
      = replicate (unat (num_workers_total (after_set_up env argv))) 100000"
    using run by simp_all
qed

text \<open>
  C1: in every run that reaches the validation loop, the input buffer was created with
  \<open>num_ipus * num_tiles_per_ipu * num_workers\<close> zeros, and after the five programs (copy
  to the device, the addition of 5 repeated 100 times, the multiplication by 10 into 20
  outputs, the sum of the 20 values, copy to the host) every element of the output
  buffer is 100000 = 5 * 100 * 10 * 20; the validation loop finds no index that fails
  its assertion and main returns 0. In no run at all does the assertion fail. A run
  with accepted arguments in which no SDK call throws does reach the validation loop.

  The validation loop asserts the value at every index of the output buffer: for any
  buffer, it passes exactly when every element is 100000, and it fails at an index
  exactly when that is the first index whose element is not 100000. So the statements
  of main from the validation on, started in any running state, return 0 and print
  \<open>Done!\<close> exactly when every element of the output buffer of that state is 100000, and
  otherwise end with the assertion failed at the first index whose element differs,
  having printed only \<open>Validating output...\<close>; main is these statements after the
  state before validation.
\<close>

theorem output_is_100000:
  "(status (before_validation env argv) = Running \<longrightarrow>
      (let n = unat (num_workers_total (after_set_up env argv)) in
         num_workers_total (after_set_up env argv)
           = num_ipus (after_set_up env argv) * num_tiles_per_ipu (after_set_up env argv)
               * num_workers (after_set_up env argv)
         \<and> buffer_in (after_set_up env argv) = replicate n 0
         \<and> buffer_out (before_validation env argv) = replicate n 100000
         \<and> validation_loop (buffer_out (before_validation env argv)) 0 = None
         \<and> buffer_out (main env argv) = replicate n 100000
         \<and> status (main env argv) = Returned 0))
   \<and> (\<forall>i. status (main env argv) \<noteq> Assert_failed i)
   \<and> (status (parse_arguments argv) = Running \<and> (\<forall>c. \<not> throws env c)
        \<longrightarrow> status (before_validation env argv) = Running)
   \<and> (5 :: cint) * 100 * 10 * 20 = 100000
   \<and> run_statements check_output (before_validation env argv) = main env argv
   \<and> (validation_loop buf 0 = None \<longleftrightarrow> (\<forall>j < length buf. buf ! j = 100000))
   \<and> (validation_loop buf 0 = Some i
        \<longleftrightarrow> i < length buf \<and> buf ! i \<noteq> 100000 \<and> (\<forall>j < i. buf ! j = 100000))
   \<and> (status s = Running \<longrightarrow>
        (status (validate s) = Running
           \<longleftrightarrow> (\<forall>j < length (buffer_out s). buffer_out s ! j = 100000))
        \<and> (status (validate s) = Assert_failed i
             \<longleftrightarrow> i < length (buffer_out s) \<and> buffer_out s ! i \<noteq> 100000
                 \<and> (\<forall>j < i. buffer_out s ! j = 100000))
        \<and> (status (run_statements check_output s) = Returned 0
             \<longleftrightarrow> (\<forall>j < length (buffer_out s). buffer_out s ! j = 100000))
        \<and> (status (run_statements check_output s) = Assert_failed i
             \<longleftrightarrow> i < length (buffer_out s) \<and> buffer_out s ! i \<noteq> 100000
                 \<and> (\<forall>j < i. buffer_out s ! j = 100000))
        \<and> cout (run_statements check_output s)
            = cout s @ Str (''Validating output...'' @ [newline])
                # (if \<forall>j < length (buffer_out s). buffer_out s ! j = 100000
                   then [Str (''Done!'' @ [newline])] else []))"
proof -
  have reached: "num_workers_total (after_set_up env argv)
        = num_ipus (after_set_up env argv) * num_tiles_per_ipu (after_set_up env argv)
            * num_workers (after_set_up env argv)
      \<and> buffer_in (after_set_up env argv)
        = replicate (unat (num_workers_total (after_set_up env argv))) 0
      \<and> buffer_out (before_validation env argv)
        = replicate (unat (num_workers_total (after_set_up env argv))) 100000
      \<and> validation_loop (buffer_out (before_validation env argv)) 0 = None
      \<and> buffer_out (main env argv)
        = replicate (unat (num_workers_total (after_set_up env argv))) 100000
      \<and> status (main env argv) = Returned 0"
    if running: "status (before_validation env argv) = Running"
  proof -
    have set_up: "status (after_set_up env argv) = Running"
      using running unfolding before_validation_def by (rule run_statements_Running)
    note built = set_up_result [OF set_up [unfolded after_set_up_def], folded after_set_up_def]
    note quiet = nothing_thrown_before_validation [OF running]
    note out = before_validation_computes(2) [OF set_up quiet(2-10)]
    have valid: "validation_loop (buffer_out (before_validation env argv)) 0 = None"
      by (rule validation_passes) (simp add: out)
    note final = check_output_passes [OF running valid, folded main_def]
    show ?thesis
      using built(2) built(5) built(8) out valid final by simp
  qed
  have never: "status (main env argv) \<noteq> Assert_failed i" for i
  proof (cases "status (before_validation env argv) = Running")
    case True
    then show ?thesis using reached by simp
  next
    case False
    then have same: "main env argv = before_validation env argv"
      by (simp add: main_def run_statements_halted)
    show ?thesis
    proof (cases "status (parse_arguments argv) = Running")
      case True
      then show ?thesis
        using before_validation_status [of argv env] same
        by (cases "status (before_validation env argv)") simp_all
    next
      case stopped: False
      then have "before_validation env argv = parse_arguments argv"
        by (simp add: before_validation_def after_set_up_def run_statements_halted)
      then show ?thesis
        using same stopped parse_arguments_status [of argv] by simp
    qed
  qed
  have runs: "status (before_validation env argv) = Running"
    if "status (parse_arguments argv) = Running" "\<forall>c. \<not> throws env c"
  proof -
    have "status (after_set_up env argv) = Running"
      unfolding after_set_up_def using that by (intro set_up_runs) simp_all
    then show ?thesis
      using that(2) by (intro before_validation_computes(1)) simp_all
  qed
  have product: "(5 :: cint) * 100 * 10 * 20 = 100000" by simp
  have loop_None: "validation_loop b 0 = None \<longleftrightarrow> (\<forall>j < length b. b ! j = 100000)" for b
    by (simp add: validation_loop_None)
  have loop_Some: "validation_loop b 0 = Some i
      \<longleftrightarrow> i < length b \<and> b ! i \<noteq> 100000 \<and> (\<forall>j < i. b ! j = 100000)" for b
    by (simp add: validation_loop_Some)
  have checks: "(status (validate s) = Running
           \<longleftrightarrow> (\<forall>j < length (buffer_out s). buffer_out s ! j = 100000))
        \<and> (status (validate s) = Assert_failed i
             \<longleftrightarrow> i < length (buffer_out s) \<and> buffer_out s ! i \<noteq> 100000
                 \<and> (\<forall>j < i. buffer_out s ! j = 100000))
        \<and> (status (run_statements check_output s) = Returned 0
             \<longleftrightarrow> (\<forall>j < length (buffer_out s). buffer_out s ! j = 100000))
        \<and> (status (run_statements check_output s) = Assert_failed i
             \<longleftrightarrow> i < length (buffer_out s) \<and> buffer_out s ! i \<noteq> 100000
                 \<and> (\<forall>j < i. buffer_out s ! j = 100000))
        \<and> cout (run_statements check_output s)
            = cout s @ Str (''Validating output...'' @ [newline])
                # (if \<forall>j < length (buffer_out s). buffer_out s ! j = 100000
                   then [Str (''Done!'' @ [newline])] else [])"
    if s: "status s = Running"
  proof (cases "validation_loop (buffer_out s) 0")
    case None
    then have all: "\<forall>j < length (buffer_out s). buffer_out s ! j = 100000"
      using loop_None by simp
    then have no: "\<not> (i < length (buffer_out s) \<and> buffer_out s ! i \<noteq> 100000
        \<and> (\<forall>j < i. buffer_out s ! j = 100000))"
      by blast
    show ?thesis
      unfolding check_output_result [OF s] using None all no s
      by (simp add: validate_def)
  next
    case (Some k)
    then have k: "k < length (buffer_out s)" "buffer_out s ! k \<noteq> 100000"
      using loop_Some [of "buffer_out s"] Some
      by (simp_all add: validation_loop_Some)
    then have not_all: "\<not> (\<forall>j < length (buffer_out s). buffer_out s ! j = 100000)"
      by blast
    have at: "(i < length (buffer_out s) \<and> buffer_out s ! i \<noteq> 100000
        \<and> (\<forall>j < i. buffer_out s ! j = 100000)) \<longleftrightarrow> k = i"
      using loop_Some [of "buffer_out s"] Some by auto
    show ?thesis
      unfolding check_output_result [OF s] using Some not_all at s
      by (simp add: validate_def)
  qed
  have whole: "run_statements check_output (before_validation env argv) = main env argv"
    by (simp add: main_def)
  have first: "(status (before_validation env argv) = Running \<longrightarrow>
      (let n = unat (num_workers_total (after_set_up env argv)) in
         num_workers_total (after_set_up env argv)
           = num_ipus (after_set_up env argv) * num_tiles_per_ipu (after_set_up env argv)
               * num_workers (after_set_up env argv)
         \<and> buffer_in (after_set_up env argv) = replicate n 0
         \<and> buffer_out (before_validation env argv) = replicate n 100000
         \<and> validation_loop (buffer_out (before_validation env argv)) 0 = None
         \<and> buffer_out (main env argv) = replicate n 100000
         \<and> status (main env argv) = Returned 0))
   \<and> (\<forall>i. status (main env argv) \<noteq> Assert_failed i)
   \<and> (status (parse_arguments argv) = Running \<and> (\<forall>c. \<not> throws env c)
        \<longrightarrow> status (before_validation env argv) = Running)
   \<and> (5 :: cint) * 100 * 10 * 20 = 100000"
    unfolding Let_def using reached never runs product by blast
  show ?thesis
    using first whole loop_None [of buf] loop_Some [of buf] checks by (intro conjI impI) blast+
qed

theorem output_is_100000_witness:
  "buffer_out (main sample_environment [''ipu_example'', ''2'', ''1'']) = replicate 12 100000
   \<and> status (main sample_environment [''ipu_example'', ''2'', ''1'']) = Returned 0
   \<and> validation_loop [100000, 100000, 7, 100000, 8] 0 = Some 2
   \<and> status (run_statements check_output
        (initial_state\<lparr>buffer_out := [100000, 100000, 7, 100000, 8]\<rparr>)) = Assert_failed 2
   \<and> cout (run_statements check_output
        (initial_state\<lparr>buffer_out := [100000, 100000, 7, 100000, 8]\<rparr>))
       = [Str (''Validating output...'' @ [newline])]"
proof -
  define buf :: "cint list" where "buf = [100000, 100000, 7, 100000, 8]"
  define s where "s = initial_state\<lparr>buffer_out := buf\<rparr>"
  have s: "status s = Running" "buffer_out s = buf" "cout s = []"
    by (simp_all add: s_def initial_state_def)
  have third: "2 < length buf \<and> buf ! 2 \<noteq> 100000 \<and> (\<forall>j < 2. buf ! j = 100000)"
    by (simp add: buf_def less_2_cases_iff)
  then have not_all: "\<not> (\<forall>j < length buf. buf ! j = 100000)"
    by blast
  have "status (parse_arguments [''ipu_example'', ''2'', ''1'']) = Running"
    by code_simp
  moreover have "\<forall>c. \<not> throws sample_environment c"
    by (simp add: sample_environment_def)
  ultimately show ?thesis
    using output_is_100000 [where env = sample_environment
        and argv = "[''ipu_example'', ''2'', ''1'']" and buf = buf and i = 2 and s = s]
      s third not_all
    unfolding s_def [symmetric] buf_def [symmetric]
    by (simp add: sample_set_up Let_def)
qed

section \<open>A sample run\<close>

text \<open>
  The run of the sample environment with two IPUs and one tile per IPU: the second
  device attaches, twelve worker threads are used, and nothing throws, so the run
  reaches the validation loop.
\<close>

lemma sample_run_reaches_validation:
  "status (before_validation sample_environment [''ipu_example'', ''2'', ''1'']) = Running"
proof (rule before_validation_computes(1))
  show "status (after_set_up sample_environment [''ipu_example'', ''2'', ''1'']) = Running"
    by (rule sample_set_up(1))
qed (simp_all add: sample_environment_def)

theorem timing_of_phases_witness:
  "fst (timeIt sample_environment 1000 (initial_state\<lparr>clock_reads := 5\<rparr>))
     = 1152921504606847 / 2 ^ 58
   \<and> \<bar>(1152921504606847 / 2 ^ 58 :: real) - 4000 / 1000000\<bar>
       \<le> \<bar>real_of_int 1152921504606846 * 2 powi (- 58) - 4000 / 1000000\<bar>
   \<and> \<bar>(1152921504606847 / 2 ^ 58 :: real) - 4000 / 1000000\<bar>
       \<le> \<bar>real_of_int 1152921504606848 * 2 powi (- 58) - 4000 / 1000000\<bar>
   \<and> \<bar>(1152921504606847 / 2 ^ 58 :: real) - 4000 / 1000000\<bar> \<le> \<bar>4000 / 1000000 :: real\<bar> / 2 ^ 53
   \<and> fst (timeIt sample_environment 1000 (initial_state\<lparr>clock_reads := 5\<rparr>))
       \<le> fst (timeIt sample_environment 1000 (initial_state\<lparr>clock_reads := 6\<rparr>))
   \<and> fst (timeIt sample_environment (- 9007199254735993) (initial_state\<lparr>clock_reads := 5\<rparr>))
       = 4722366482869645 / 2 ^ 19
   \<and> events (snd (timeIt sample_environment 1000 (initial_state\<lparr>clock_reads := 5\<rparr>)))
       = [Timed 1000 5000]
   \<and> clock_reads (snd (timeIt sample_environment 1000 (initial_state\<lparr>clock_reads := 5\<rparr>))) = 6
   \<and> events (main sample_environment [''ipu_example'', ''2'', ''1''])
       = [AttachedTo 1, Sdk BuildGraph,
          Started 0, Sdk EngineConstruct, Timed 0 1000,
          Started 2000, Sdk EngineLoad, Timed 2000 3000,
          Sdk (ConnectStream ''input_write''), Sdk (ConnectStream ''output_read''),
          Started 4000, Sdk (EngineRun 0), Timed 4000 5000,
          Started 6000, Sdk (EngineRun 1), Timed 6000 7000,
          Started 8000, Sdk (EngineRun 2), Timed 8000 9000,
          Started 10000, Sdk (EngineRun 3), Timed 10000 11000,
          Started 12000, Sdk (EngineRun 4), Timed 12000 13000]"
proof -
  define st5 where "st5 = initial_state\<lparr>clock_reads := 5\<rparr>"
  define st6 where "st6 = initial_state\<lparr>clock_reads := 6\<rparr>"
  have clock: "steady_clock sample_environment k = 1000 * int k" for k
    by (simp add: sample_environment_def)
  have reads: "clock_reads st5 = 5" "clock_reads st6 = 6" "events st5 = []"
    by (simp_all add: st5_def st6_def initial_state_def)
  have ms: "fst (timeIt sample_environment 1000 st5) = 1152921504606847 / 2 ^ 58"
    unfolding st5_def by code_simp
  have tie: "fst (timeIt sample_environment (- 9007199254735993) st5)
      = 4722366482869645 / 2 ^ 19"
    unfolding st5_def by code_simp
  have converted: "to_double 4000 = 4000"
    by code_simp
  have set_up: "events (after_set_up sample_environment [''ipu_example'', ''2'', ''1''])
      = [AttachedTo 1, Sdk BuildGraph]"
    by code_simp
  note call = timing_of_phases [where env = sample_environment and start_point = 1000
      and st = st5 and env' = sample_environment and st' = st6
      and argv = "[''ipu_example'', ''2'', ''1'']", unfolded Let_def]
  have nearest: "\<bar>fst (timeIt sample_environment 1000 st5) - to_double 4000 / 1000000\<bar>
      \<le> \<bar>real_of_int m * 2 powi g - to_double 4000 / 1000000\<bar>" if "\<bar>m\<bar> < 2 ^ 53" for m g
    using call [THEN conjunct1, THEN conjunct2, THEN conjunct2, THEN conjunct2, THEN conjunct2,
        THEN conjunct1, rule_format, OF that, of g]
    by (simp add: clock reads)
  have below: "\<bar>(1152921504606847 / 2 ^ 58 :: real) - 4000 / 1000000\<bar>
      \<le> \<bar>real_of_int 1152921504606846 * 2 powi (- 58) - 4000 / 1000000\<bar>"
    using nearest [of 1152921504606846 "- 58"] by (simp only: ms converted) simp
  have above: "\<bar>(1152921504606847 / 2 ^ 58 :: real) - 4000 / 1000000\<bar>
      \<le> \<bar>real_of_int 1152921504606848 * 2 powi (- 58) - 4000 / 1000000\<bar>"
    using nearest [of 1152921504606848 "- 58"] by (simp only: ms converted) simp
  have error: "\<bar>(1152921504606847 / 2 ^ 58 :: real) - 4000 / 1000000\<bar>
      \<le> \<bar>4000 / 1000000 :: real\<bar> / 2 ^ 53"
    using call by (simp add: clock reads ms)
  have later: "fst (timeIt sample_environment 1000 st5) \<le> fst (timeIt sample_environment 1000 st6)"
    using call by (simp add: clock reads)
  have recorded: "events (snd (timeIt sample_environment 1000 st5)) = [Timed 1000 5000]"
    and read: "clock_reads (snd (timeIt sample_environment 1000 st5)) = 6"
    using call by (simp_all add: clock reads)
  have run: "events (main sample_environment [''ipu_example'', ''2'', ''1''])
       = [AttachedTo 1, Sdk BuildGraph,
          Started 0, Sdk EngineConstruct, Timed 0 1000,
          Started 2000, Sdk EngineLoad, Timed 2000 3000,
          Sdk (ConnectStream ''input_write''), Sdk (ConnectStream ''output_read''),
          Started 4000, Sdk (EngineRun 0), Timed 4000 5000,
          Started 6000, Sdk (EngineRun 1), Timed 6000 7000,
          Started 8000, Sdk (EngineRun 2), Timed 8000 9000,
          Started 10000, Sdk (EngineRun 3), Timed 10000 11000,
          Started 12000, Sdk (EngineRun 4), Timed 12000 13000]"
    using call set_up
    by (simp add: sample_set_up sample_run_reaches_validation run_trace_def timed_phase_def clock)
  show ?thesis
    using ms below above error later tie recorded read run
    unfolding st5_def st6_def by (intro conjI)
qed

theorem programs_in_enum_order_witness:
  "programs (main sample_environment [''ipu_example'', ''2'', ''1'']) ! Program_index SUM_PROG
     = Execute computeSet2
   \<and> engine_runs (events (main sample_environment [''ipu_example'', ''2'', ''1'']))
       = [0, 1, 2, 3, 4]
   \<and> engine_runs (events (main sample_environment [''ipu_example'', ''7''])) = []"
proof -
  have "status (after_set_up sample_environment [''ipu_example'', ''7'']) \<noteq> Running"
    by code_simp
  then show ?thesis
    using programs_in_enum_order [of sample_environment "[''ipu_example'', ''2'', ''1'']"]
      programs_in_enum_order [of sample_environment "[''ipu_example'', ''7'']"]
    by (simp add: sample_set_up sample_run_reaches_validation)
qed

end
